theory Spec2Isabelle
  imports Complex_Main "HOL-Library.AList" "HOL-Library.Sublist"
begin

section \<open>The filesystem the consolidation script works on\<close>

text \<open>
  \<^verbatim>\<open>scripts/jmh_consolidation.py\<close> is a sequence of filesystem operations
  (\<^verbatim>\<open>pathlib\<close>, \<^verbatim>\<open>shutil\<close>, \<^verbatim>\<open>os\<close>). A path is the list of its
  components below the root (\<^verbatim>\<open>/data/Photography\<close> is \<open>[''data'', ''Photography'']\<close>);
  a filesystem is an association list from paths to nodes, read with \<open>map_of\<close>, so that
  a directory can be listed. A regular file carries its bytes and its modification time,
  the two things \<^verbatim>\<open>shutil.copy2\<close> copies. Symbolic links, permissions and several
  devices are not modelled.
\<close>

type_synonym path = "string list"

datatype node = File (content: string) (mtime: int) | Dir

type_synonym filesystem = "(path \<times> node) list"

text \<open>The Python exceptions the modelled calls raise (\<open>OSError\<close> stands for an
  \<^verbatim>\<open>OSError\<close> with no class of its own, as \<^verbatim>\<open>EINVAL\<close> and \<^verbatim>\<open>ENOTEMPTY\<close> are).\<close>

datatype exn =
    FileNotFoundError
  | NotADirectoryError
  | IsADirectoryError
  | FileExistsError
  | PermissionError
  | OSError
  | SameFileError
  | Shutil_Error
  | TimeoutExpired
  | RecursionError
  | IndexError
  | ValueError

text \<open>\<^verbatim>\<open>OSError\<close> and its subclasses (\<^verbatim>\<open>shutil.Error\<close> is one).\<close>

fun is_OSError :: "exn \<Rightarrow> bool" where
  "is_OSError FileNotFoundError = True"
| "is_OSError NotADirectoryError = True"
| "is_OSError IsADirectoryError = True"
| "is_OSError FileExistsError = True"
| "is_OSError PermissionError = True"
| "is_OSError OSError = True"
| "is_OSError SameFileError = True"
| "is_OSError Shutil_Error = True"
| "is_OSError TimeoutExpired = False"
| "is_OSError RecursionError = False"
| "is_OSError IndexError = False"
| "is_OSError ValueError = False"

definition node_at :: "filesystem \<Rightarrow> path \<Rightarrow> node option" where
  "node_at fs p = map_of fs p"

text \<open>\<^verbatim>\<open>Path.exists()\<close>, \<^verbatim>\<open>Path.is_dir()\<close>, \<^verbatim>\<open>Path.is_file()\<close>.\<close>

definition path_exists :: "filesystem \<Rightarrow> path \<Rightarrow> bool" where
  "path_exists fs p = (node_at fs p \<noteq> None)"

definition is_dir :: "filesystem \<Rightarrow> path \<Rightarrow> bool" where
  "is_dir fs p = (node_at fs p = Some Dir)"

definition is_file :: "filesystem \<Rightarrow> path \<Rightarrow> bool" where
  "is_file fs p = (case node_at fs p of Some (File c m) \<Rightarrow> True | _ \<Rightarrow> False)"

text \<open>\<^verbatim>\<open>Path.name\<close> (the last component, empty for the root) and \<^verbatim>\<open>Path.parent\<close>.\<close>

definition path_name :: "path \<Rightarrow> string" where
  "path_name p = (if p = [] then [] else last p)"

definition parent :: "path \<Rightarrow> path" where
  "parent p = butlast p"

text \<open>A real filesystem holds an entry only inside a directory.\<close>

definition wf_fs :: "filesystem \<Rightarrow> bool" where
  "wf_fs fs = list_all (\<lambda>p. p = [] \<or> is_dir fs (parent p)) (map fst fs)"

definition write_node :: "filesystem \<Rightarrow> path \<Rightarrow> node \<Rightarrow> filesystem" where
  "write_node fs p n = AList.update p n fs"

definition remove_node :: "filesystem \<Rightarrow> path \<Rightarrow> filesystem" where
  "remove_node fs p = AList.delete p fs"

text \<open>\<^verbatim>\<open>os.listdir\<close>: the names of the entries of a directory, in the order of the table.\<close>

definition os_listdir :: "filesystem \<Rightarrow> path \<Rightarrow> string list" where
  "os_listdir fs d = remdups [last p. p \<leftarrow> map fst fs, p \<noteq> [] \<and> butlast p = d]"

text \<open>
  The error of the operating system for a path that does not lead to a directory:
  \<^verbatim>\<open>ENOTDIR\<close> when a regular file is on the way, \<^verbatim>\<open>ENOENT\<close> otherwise.
\<close>

definition lookup_error :: "filesystem \<Rightarrow> path \<Rightarrow> exn" where
  "lookup_error fs p =
     (if list_ex (is_file fs) (prefixes p) then NotADirectoryError else FileNotFoundError)"

text \<open>\<^verbatim>\<open>Path.iterdir()\<close>: the children of a directory, listed when the loop starts.\<close>

definition iterdir :: "filesystem \<Rightarrow> path \<Rightarrow> exn + path list" where
  "iterdir fs d =
     (if is_dir fs d then Inr (map (\<lambda>n. d @ [n]) (os_listdir fs d))
      else Inl (lookup_error fs d))"

text \<open>Opening a path for writing: \<open>None\<close> when the file can be created or truncated.\<close>

definition open_w :: "filesystem \<Rightarrow> path \<Rightarrow> exn option" where
  "open_w fs p =
     (if is_dir fs p then Some IsADirectoryError
      else if p \<noteq> [] \<and> is_dir fs (parent p) then None
      else Some (lookup_error fs (parent p)))"

text \<open>
  \<^verbatim>\<open>shutil.copy2(src, dst)\<close>: a destination that is a directory means the file of the
  source's name inside it; copying a file onto itself is \<^verbatim>\<open>SameFileError\<close>; the source
  is opened for reading, the destination for writing (an existing regular file is
  overwritten), and the bytes and the modification time are copied.
\<close>

definition copy2 :: "filesystem \<Rightarrow> path \<Rightarrow> path \<Rightarrow> filesystem \<times> exn option" where
  "copy2 fs src dst0 =
     (let dst = (if is_dir fs dst0 then dst0 @ [path_name src] else dst0) in
      if path_exists fs src \<and> src = dst then (fs, Some SameFileError)
      else case node_at fs src of
          None \<Rightarrow> (fs, Some (lookup_error fs src))
        | Some Dir \<Rightarrow> (fs, Some IsADirectoryError)
        | Some (File c m) \<Rightarrow>
            (case open_w fs dst of
               Some e \<Rightarrow> (fs, Some e)
             | None \<Rightarrow> (write_node fs dst (File c m), None)))"

text \<open>\<^verbatim>\<open>os.mkdir\<close>.\<close>

definition os_mkdir :: "filesystem \<Rightarrow> path \<Rightarrow> filesystem \<times> exn option" where
  "os_mkdir fs p =
     (if path_exists fs p then (fs, Some FileExistsError)
      else if p \<noteq> [] \<and> is_dir fs (parent p) then (write_node fs p Dir, None)
      else (fs, Some (lookup_error fs (parent p))))"

text \<open>
  \<^verbatim>\<open>os.makedirs(name)\<close> with \<^verbatim>\<open>exist_ok=False\<close>: the missing parents are made first
  (a \<^verbatim>\<open>FileExistsError\<close> of that call is passed over), then the directory itself.
\<close>

function makedirs :: "filesystem \<Rightarrow> path \<Rightarrow> filesystem \<times> exn option" where
  "makedirs fs p =
     (if p \<noteq> [] \<and> \<not> path_exists fs (parent p) then
        (case makedirs fs (parent p) of
           (fs1, None) \<Rightarrow> os_mkdir fs1 p
         | (fs1, Some e) \<Rightarrow> if e = FileExistsError then os_mkdir fs1 p else (fs1, Some e))
      else os_mkdir fs p)"
  by pat_completeness auto
termination
  by (relation "measure (\<lambda>(fs, p). length p)") (auto simp: parent_def)

declare makedirs.simps [simp del]

text \<open>
  A \<^verbatim>\<open>for\<close> loop whose body may raise: the loop stops at the first exception, with
  the state reached so far.
\<close>

fun for_each :: "('a \<Rightarrow> 's \<Rightarrow> 's \<times> exn option) \<Rightarrow> 'a list \<Rightarrow> 's \<Rightarrow> 's \<times> exn option" where
  "for_each body [] s = (s, None)"
| "for_each body (x # xs) s =
     (case body x s of
        (s', None) \<Rightarrow> for_each body xs s'
      | (s', Some e) \<Rightarrow> (s', Some e))"

text \<open>
  \<^verbatim>\<open>shutil.copytree(src, dst)\<close>. The entries of the source are listed (with their kind)
  before the destination is made; \<^verbatim>\<open>os.makedirs\<close> refuses a destination that exists.
  An \<^verbatim>\<open>OSError\<close> of one entry is collected and the loop continues; the collected
  errors are raised as one \<^verbatim>\<open>shutil.Error\<close> at the end. Any other exception leaves
  at once. The function calls itself for every subdirectory: the first argument bounds
  the nesting, as the interpreter's recursion limit does, and running out of it is
  \<^verbatim>\<open>RecursionError\<close>.
\<close>

fun copytree :: "nat \<Rightarrow> filesystem \<Rightarrow> path \<Rightarrow> path \<Rightarrow> filesystem \<times> exn option" where
  "copytree 0 fs src dst = (fs, Some RecursionError)"
| "copytree (Suc d) fs src dst =
     (if \<not> is_dir fs src then (fs, Some (lookup_error fs src))
      else
        let entries = map (\<lambda>n. (n, is_dir fs (src @ [n]))) (os_listdir fs src) in
        case makedirs fs dst of
          (fs1, Some e) \<Rightarrow> (fs1, Some e)
        | (fs1, None) \<Rightarrow>
            (case for_each
                (\<lambda>(n, isd) (fs2, errs).
                   case (if isd then copytree d fs2 (src @ [n]) (dst @ [n])
                         else copy2 fs2 (src @ [n]) (dst @ [n])) of
                     (fs3, None) \<Rightarrow> ((fs3, errs), None)
                   | (fs3, Some e) \<Rightarrow>
                       if is_OSError e then ((fs3, errs @ [e]), None)
                       else ((fs3, errs), Some e))
                entries (fs1, []) of
               ((fs4, errs), Some e) \<Rightarrow> (fs4, Some e)
             | ((fs4, errs), None) \<Rightarrow>
                 if errs \<noteq> [] then (fs4, Some Shutil_Error) else (fs4, None)))"

section \<open>Names and numbers as text\<close>

text \<open>\<^verbatim>\<open>str(n)\<close> for a natural number.\<close>

definition digit_char :: "nat \<Rightarrow> char" where
  "digit_char n = ''0123456789'' ! n"

fun str_nat :: "nat \<Rightarrow> string" where
  "str_nat n = (if n < 10 then [digit_char n] else str_nat (n div 10) @ [digit_char (n mod 10)])"

declare str_nat.simps [simp del]

text \<open>\<^verbatim>\<open>str.rfind('.')\<close>, and \<^verbatim>\<open>Path.suffix\<close> and \<^verbatim>\<open>Path.stem\<close> as pathlib
  defines them from it (a leading dot and a trailing dot start no suffix).\<close>

definition rfind_dot :: "string \<Rightarrow> nat option" where
  "rfind_dot s =
     (if CHR ''.'' \<in> set s
      then Some (length s - 1 - length (takeWhile (\<lambda>c. c \<noteq> CHR ''.'') (rev s)))
      else None)"

definition suffix_of :: "string \<Rightarrow> string" where
  "suffix_of name =
     (case rfind_dot name of
        Some i \<Rightarrow> if 0 < i \<and> i + 1 < length name then drop i name else []
      | None \<Rightarrow> [])"

definition stem_of :: "string \<Rightarrow> string" where
  "stem_of name =
     (case rfind_dot name of
        Some i \<Rightarrow> if 0 < i \<and> i + 1 < length name then take i name else name
      | None \<Rightarrow> name)"

text \<open>\<^verbatim>\<open>str.isdigit()\<close> on the characters \<^verbatim>\<open>0\<close> to \<^verbatim>\<open>9\<close>.\<close>

definition is_digit :: "char \<Rightarrow> bool" where
  "is_digit c = (c \<in> set ''0123456789'')"

definition isdigit :: "string \<Rightarrow> bool" where
  "isdigit s = (s \<noteq> [] \<and> list_all is_digit s)"

section \<open>The consolidator and what it calls outside\<close>

text \<open>The result of \<^verbatim>\<open>subprocess.run\<close>: a completed process, or an exception.\<close>

datatype proc = Completed (returncode: int) (stdout: string) (stderr: string) | Raised exn

record datetime =
  year :: nat
  month :: nat
  day :: nat
  hour :: nat
  minute :: nat
  second :: nat

text \<open>The entries of \<^verbatim>\<open>self.stats['errors']\<close>, one constructor for each message.\<close>

datatype error_msg =
    Failed_to_copy path exn
  | Jdupes_failed string
  | Jdupes_timed_out
  | Jdupes_not_installed
  | Failed_to_import exn
  | Consolidation_failed exn

record ConsolidationStats =
  files_found :: nat
  duplicates_found :: nat
  files_copied :: nat
  total_size_mb :: rat
  errors :: "error_msg list"

record PhotoConsolidator =
  stage_dir :: path
  dry_run :: bool
  stats :: ConsolidationStats

record report =
  consolidation_date :: string
  statistics :: ConsolidationStats
  report_dry_run :: bool
  stage_directory :: path

text \<open>
  What the script reaches outside itself, as parameters: the three external programs
  (their result may depend on the filesystem they are run on), the conversion of a
  modification time to local time, the clock and the JSON serialiser.
\<close>

record externals =
  run_jdupes :: "filesystem \<Rightarrow> path \<Rightarrow> path \<Rightarrow> proc"
  run_exiftool :: "filesystem \<Rightarrow> path \<Rightarrow> proc"
  run_darktable_cli :: "filesystem \<Rightarrow> proc"
  fromtimestamp :: "int \<Rightarrow> datetime"
  now_isoformat :: string
  now_timestamp :: int
  json_dump :: "report \<Rightarrow> string"

definition add_error :: "error_msg \<Rightarrow> PhotoConsolidator \<Rightarrow> PhotoConsolidator" where
  "add_error m self = self\<lparr>stats := (stats self)\<lparr>errors := errors (stats self) @ [m]\<rparr>\<rparr>"

section \<open>Strings of the detector's and the reader's output\<close>

text \<open>
  Strings are ASCII text; the whitespace of \<^verbatim>\<open>str.strip()\<close> is then the tab to the
  carriage return, the four separators \<^verbatim>\<open>0x1c\<close> to \<^verbatim>\<open>0x1f\<close> and the space.
\<close>

definition is_space :: "char \<Rightarrow> bool" where
  "is_space c =
     (c \<in> set [CHR 0x09, CHR 0x0A, CHR 0x0B, CHR 0x0C, CHR 0x0D,
                CHR 0x1C, CHR 0x1D, CHR 0x1E, CHR 0x1F, CHR 0x20])"

definition strip :: "string \<Rightarrow> string" where
  "strip s = rev (dropWhile is_space (rev (dropWhile is_space s)))"

text \<open>
  \<^verbatim>\<open>s.split(sep)\<close> for a separator that is not empty: the occurrences of the separator
  are found from the left and do not overlap; \<open>acc\<close> holds, reversed, the piece being read.
\<close>

function split_from :: "string \<Rightarrow> string \<Rightarrow> string \<Rightarrow> string list" where
  "split_from sep acc [] = [rev acc]"
| "split_from sep acc (c # cs) =
     (if sep \<noteq> [] \<and> prefix sep (c # cs)
      then rev acc # split_from sep [] (drop (length sep) (c # cs))
      else split_from sep (c # acc) cs)"
  by pat_completeness auto
termination
  by (relation "measure (\<lambda>(sep, acc, s). length s)") auto

definition str_split :: "string \<Rightarrow> string \<Rightarrow> string list" where
  "str_split s sep = split_from sep [] s"

text \<open>\<^verbatim>\<open>s.split(sep, 1)\<close>: the text before and after the first occurrence, if there is one.\<close>

fun split_once_from :: "string \<Rightarrow> string \<Rightarrow> string \<Rightarrow> (string \<times> string) option" where
  "split_once_from sep acc [] = None"
| "split_once_from sep acc (c # cs) =
     (if sep \<noteq> [] \<and> prefix sep (c # cs)
      then Some (rev acc, drop (length sep) (c # cs))
      else split_once_from sep (c # acc) cs)"

definition split_once :: "string \<Rightarrow> string \<Rightarrow> (string \<times> string) option" where
  "split_once s sep = split_once_from sep [] s"

text \<open>\<^verbatim>\<open>sub in s\<close>.\<close>

fun contains :: "string \<Rightarrow> string \<Rightarrow> bool" where
  "contains sub [] = (sub = [])"
| "contains sub (c # cs) = (prefix sub (c # cs) \<or> contains sub cs)"

definition newline :: string where
  "newline = [CHR 0x0A]"

text \<open>
  \<^verbatim>\<open>Path(s)\<close>: pathlib drops empty components and single dots. Every path is read
  from the root (the working directory is the root), and \<^verbatim>\<open>..\<close> is a name like any other.
  \<^verbatim>\<open>p / s\<close> appends the components of \<open>s\<close> (the script joins file names only, and a
  name has no slash).
\<close>

definition Path :: "string \<Rightarrow> path" where
  "Path s = filter (\<lambda>c. c \<noteq> [] \<and> c \<noteq> ''.'') (str_split s ''/'')"

definition path_join :: "path \<Rightarrow> string \<Rightarrow> path" where
  "path_join p s = p @ Path s"

text \<open>\<^verbatim>\<open>f"{n:02d}"\<close>.\<close>

definition pad2 :: "nat \<Rightarrow> string" where
  "pad2 n = (if n < 10 then CHR ''0'' # str_nat n else str_nat n)"

section \<open>Renaming, moving and making directories\<close>

text \<open>
  \<^verbatim>\<open>os.rename\<close> on one device. A regular file replaces a regular file of the
  destination name; a directory moves with everything below it, onto a free name or an
  empty directory, and never into itself.
\<close>

definition move_subtree :: "filesystem \<Rightarrow> path \<Rightarrow> path \<Rightarrow> filesystem" where
  "move_subtree fs src dst =
     map (\<lambda>(p, n). if prefix src p then (dst @ drop (length src) p, n) else (p, n))
       (remove_node fs dst)"

definition os_rename :: "filesystem \<Rightarrow> path \<Rightarrow> path \<Rightarrow> filesystem \<times> exn option" where
  "os_rename fs src dst =
     (case node_at fs src of
        None \<Rightarrow> (fs, Some (lookup_error fs src))
      | Some (File c m) \<Rightarrow>
          if src = dst then (fs, None)
          else if is_dir fs dst then (fs, Some IsADirectoryError)
          else if dst \<noteq> [] \<and> is_dir fs (parent dst)
            then (write_node (remove_node fs src) dst (File c m), None)
          else (fs, Some (lookup_error fs (parent dst)))
      | Some Dir \<Rightarrow>
          if src = dst then (fs, None)
          else if prefix src dst then (fs, Some OSError)
          else if is_file fs dst then (fs, Some NotADirectoryError)
          else if is_dir fs dst \<and> os_listdir fs dst \<noteq> [] then (fs, Some OSError)
          else if dst \<noteq> [] \<and> is_dir fs (parent dst) then (move_subtree fs src dst, None)
          else (fs, Some (lookup_error fs (parent dst))))"

text \<open>\<^verbatim>\<open>shutil.rmtree\<close>: the directory and everything below it.\<close>

definition rmtree :: "filesystem \<Rightarrow> path \<Rightarrow> filesystem" where
  "rmtree fs src = filter (\<lambda>(p, n). \<not> prefix src p) fs"

text \<open>
  \<^verbatim>\<open>shutil.move(src, dst)\<close>. A destination that is a directory means the entry of the
  source's name inside it, which must not exist. The rename is tried first; when it
  fails, a directory is copied with \<open>copytree\<close> and removed (unless the destination
  lies inside it), and a file is copied with \<open>copy2\<close> and unlinked.
\<close>

definition shutil_move :: "nat \<Rightarrow> filesystem \<Rightarrow> path \<Rightarrow> path \<Rightarrow> filesystem \<times> exn option" where
  "shutil_move depth fs src dst =
     (if is_dir fs dst \<and> src = dst then os_rename fs src dst
      else
        let real_dst = (if is_dir fs dst then dst @ [path_name src] else dst) in
        if is_dir fs dst \<and> path_exists fs real_dst then (fs, Some Shutil_Error)
        else
          case os_rename fs src real_dst of
            (fs1, None) \<Rightarrow> (fs1, None)
          | (fs1, Some e) \<Rightarrow>
              if is_dir fs src then
                (if prefix src dst then (fs, Some Shutil_Error)
                 else
                   case copytree depth fs src real_dst of
                     (fs2, Some e2) \<Rightarrow> (fs2, Some e2)
                   | (fs2, None) \<Rightarrow> (rmtree fs2 src, None))
              else
                (case copy2 fs src real_dst of
                   (fs2, Some e2) \<Rightarrow> (fs2, Some e2)
                 | (fs2, None) \<Rightarrow> (remove_node fs2 src, None)))"

text \<open>\<^verbatim>\<open>Path.mkdir(exist_ok=True)\<close>: an error is passed over when the directory is there.\<close>

definition mkdir_exist_ok :: "filesystem \<Rightarrow> path \<Rightarrow> filesystem \<times> exn option" where
  "mkdir_exist_ok fs p =
     (case os_mkdir fs p of
        (fs1, None) \<Rightarrow> (fs1, None)
      | (fs1, Some e) \<Rightarrow>
          if e \<noteq> FileNotFoundError \<and> is_dir fs p then (fs, None) else (fs, Some e))"

text \<open>
  \<^verbatim>\<open>Path.mkdir(parents=True, exist_ok=True)\<close>: on \<^verbatim>\<open>FileNotFoundError\<close> the parent is
  made in the same way first, then the directory.
\<close>

function mkdir_parents :: "filesystem \<Rightarrow> path \<Rightarrow> filesystem \<times> exn option" where
  "mkdir_parents fs p =
     (case os_mkdir fs p of
        (fs1, None) \<Rightarrow> (fs1, None)
      | (fs1, Some e) \<Rightarrow>
          if e = FileNotFoundError then
            (if p = [] then (fs, Some e)
             else
               case mkdir_parents fs (parent p) of
                 (fs2, Some e2) \<Rightarrow> (fs2, Some e2)
               | (fs2, None) \<Rightarrow> mkdir_exist_ok fs2 p)
          else if is_dir fs p then (fs, None)
          else (fs, Some e))"
  by pat_completeness auto
termination
  by (relation "measure (\<lambda>(fs, p). length p)") (auto simp: parent_def)

declare mkdir_parents.simps [simp del]

section \<open>The merge into the library\<close>

text \<open>
  The \<^verbatim>\<open>while dest_item.exists()\<close> loop of \<^verbatim>\<open>_merge_directories\<close>. It stops because
  the table is finite: a name that exists is no longer than all names of the table
  together, and the decimal numeral of the counter grows with the counter.
\<close>

lemma str_nat_bound: "n < 10 ^ length (str_nat n)"
proof (induction n rule: str_nat.induct)
  case (1 n)
  show ?case
  proof (cases "n < 10")
    case True
    then show ?thesis by (subst str_nat.simps) simp
  next
    case False
    with "1.IH" have "n div 10 < 10 ^ length (str_nat (n div 10))" by simp
    then have "n < 10 * 10 ^ length (str_nat (n div 10))" by arith
    with False show ?thesis by (subst str_nat.simps) simp
  qed
qed

definition name_bound :: "filesystem \<Rightarrow> nat" where
  "name_bound fs = 10 ^ sum_list (map (\<lambda>p. sum_list (map length p)) (map fst fs))"

lemma exists_name_bound:
  assumes "path_exists fs (dir @ [pre @ str_nat c @ post])"
  shows "c < name_bound fs"
proof -
  let ?p = "dir @ [pre @ str_nat c @ post]"
  from assms have "?p \<in> set (map fst fs)"
    by (auto simp: path_exists_def node_at_def map_of_eq_None_iff)
  then have "sum_list (map length ?p) \<le> sum_list (map (\<lambda>p. sum_list (map length p)) (map fst fs))"
    using member_le_sum_list[of "sum_list (map length ?p)" "map (\<lambda>p. sum_list (map length p)) (map fst fs)"]
    by force
  moreover have "length (str_nat c) \<le> sum_list (map length ?p)" by simp
  ultimately have "length (str_nat c) \<le> sum_list (map (\<lambda>p. sum_list (map length p)) (map fst fs))"
    by linarith
  then have "(10::nat) ^ length (str_nat c) \<le> name_bound fs"
    unfolding name_bound_def by (simp add: power_increasing)
  with str_nat_bound[of c] show ?thesis by linarith
qed

function suffix_loop :: "filesystem \<Rightarrow> path \<Rightarrow> string \<Rightarrow> string \<Rightarrow> path \<Rightarrow> nat \<Rightarrow> path" where
  "suffix_loop fs dest_dir base_name extension dest_item counter =
     (if path_exists fs dest_item
      then suffix_loop fs dest_dir base_name extension
             (dest_dir @ [base_name @ ''_'' @ str_nat counter @ extension]) (counter + 1)
      else dest_item)"
  by pat_completeness auto
termination
proof (relation "measure (\<lambda>(fs, dest_dir, base_name, extension, dest_item, counter).
          2 * (name_bound fs - counter) + (if path_exists fs dest_item then 1 else 0))",
       goal_cases)
  case 1
  show ?case by simp
next
  case (2 fs dest_dir base_name extension dest_item counter)
  show ?case
  proof (cases "path_exists fs (dest_dir @ [base_name @ ''_'' @ str_nat counter @ extension])")
    case True
    then have "counter < name_bound fs"
      using exists_name_bound[of fs dest_dir "base_name @ ''_''" counter extension] by simp
    with True 2 show ?thesis by simp
  next
    case False
    with 2 show ?thesis by simp
  qed
qed

declare suffix_loop.simps [simp del]

text \<open>
  \<^verbatim>\<open>_merge_directories(src_dir, dest_dir)\<close>. For a file whose name is taken at the
  destination, the counter starts at 1 and the loop above looks for a free name made of
  the stem, an underscore, the counter and the suffix. The function calls itself for a
  subdirectory that exists on both sides; the first argument bounds the nesting as in
  \<open>copytree\<close>. An exception of any call leaves the function with the filesystem as it
  is then.
\<close>

fun merge_directories :: "nat \<Rightarrow> filesystem \<Rightarrow> path \<Rightarrow> path \<Rightarrow> filesystem \<times> exn option" where
  "merge_directories 0 fs src_dir dest_dir = (fs, Some RecursionError)"
| "merge_directories (Suc d) fs src_dir dest_dir =
     (case iterdir fs src_dir of
        Inl e \<Rightarrow> (fs, Some e)
      | Inr items \<Rightarrow>
          for_each
            (\<lambda>src_item fs1.
               let dest_item = dest_dir @ [path_name src_item] in
               if is_dir fs1 src_item then
                 (if path_exists fs1 dest_item
                  then merge_directories d fs1 src_item dest_item
                  else copytree d fs1 src_item dest_item)
               else
                 copy2 fs1 src_item
                   (if path_exists fs1 dest_item
                    then suffix_loop fs1 dest_dir (stem_of (path_name dest_item))
                           (suffix_of (path_name dest_item)) dest_item 1
                    else dest_item))
            items fs)"

text \<open>
  \<^verbatim>\<open>import_to_darktable\<close>: the body of its \<^verbatim>\<open>try\<close> first. Every year directory of
  the organized tree (a directory whose name is all digits) is merged into the year
  directory of the library when that exists, and copied as a whole otherwise; then
  \<^verbatim>\<open>darktable-cli\<close> is run, whose absence or timeout is passed over.
\<close>

definition final_photo_dir :: path where
  "final_photo_dir = [''data'', ''Photography'']"

definition import_years :: "nat \<Rightarrow> filesystem \<Rightarrow> path \<Rightarrow> filesystem \<times> exn option" where
  "import_years depth fs organized_dir =
     (case iterdir fs organized_dir of
        Inl e \<Rightarrow> (fs, Some e)
      | Inr year_dirs \<Rightarrow>
          for_each
            (\<lambda>year_dir fs1.
               if is_dir fs1 year_dir \<and> isdigit (path_name year_dir) then
                 (let dest_year_dir = final_photo_dir @ [path_name year_dir] in
                  if path_exists fs1 dest_year_dir
                  then merge_directories depth fs1 year_dir dest_year_dir
                  else copytree depth fs1 year_dir dest_year_dir)
               else (fs1, None))
            year_dirs fs)"

definition import_try :: "externals \<Rightarrow> nat \<Rightarrow> filesystem \<Rightarrow> path \<Rightarrow> filesystem \<times> exn option" where
  "import_try ext depth fs organized_dir =
     (case import_years depth fs organized_dir of
        (fs1, Some e) \<Rightarrow> (fs1, Some e)
      | (fs1, None) \<Rightarrow>
          (case run_darktable_cli ext fs1 of
             Completed rc out err \<Rightarrow> (fs1, None)
           | Raised e \<Rightarrow>
               if e = FileNotFoundError \<or> e = TimeoutExpired then (fs1, None)
               else (fs1, Some e)))"

text \<open>
  The whole step: nothing in a dry run, nothing when the organized directory is
  missing, and an exception of the body is put on the error list.
\<close>

definition import_to_darktable ::
  "externals \<Rightarrow> nat \<Rightarrow> PhotoConsolidator \<Rightarrow> filesystem \<Rightarrow> PhotoConsolidator \<times> filesystem" where
  "import_to_darktable ext depth self fs =
     (if dry_run self then (self, fs)
      else
        let organized_dir = stage_dir self @ [''organized''] in
        if \<not> path_exists fs organized_dir then (self, fs)
        else
          (case import_try ext depth fs organized_dir of
             (fs1, None) \<Rightarrow> (self, fs1)
           | (fs1, Some e) \<Rightarrow> (add_error (Failed_to_import e) self, fs1)))"

section \<open>Duplicate resolution\<close>

text \<open>
  \<^verbatim>\<open>_handle_duplicates(jdupes_output)\<close>. The output is cut into groups at blank lines
  and each group into lines; a group of fewer than two lines is passed over. Every line
  but the first names a file to move into \<^verbatim>\<open>stage_dir/duplicates\<close> under its own name,
  if it exists; an exception of the move is logged and the loop goes on. The result is
  the filesystem and the local counter \<^verbatim>\<open>moved\<close>, which the script only logs.
\<close>

definition quarantine_one ::
  "nat \<Rightarrow> PhotoConsolidator \<Rightarrow> string \<Rightarrow> filesystem \<times> nat \<Rightarrow> filesystem \<times> nat" where
  "quarantine_one depth self duplicate_file = (\<lambda>(fs, moved).
     let duplicate_path = Path (strip duplicate_file) in
     if path_exists fs duplicate_path then
       (let dest_path = path_join (stage_dir self @ [''duplicates'']) (path_name duplicate_path) in
        case shutil_move depth fs duplicate_path dest_path of
          (fs1, None) \<Rightarrow> (fs1, moved + 1)
        | (fs1, Some e) \<Rightarrow> (fs1, moved))
     else (fs, moved))"

definition handle_group ::
  "nat \<Rightarrow> PhotoConsolidator \<Rightarrow> string \<Rightarrow> filesystem \<times> nat \<Rightarrow> filesystem \<times> nat" where
  "handle_group depth self grp s =
     (if strip grp = [] then s
      else
        let files = str_split (strip grp) newline in
        if length files < 2 then s
        else fold (quarantine_one depth self) (tl files) s)"

definition handle_duplicates ::
  "nat \<Rightarrow> PhotoConsolidator \<Rightarrow> filesystem \<Rightarrow> string \<Rightarrow> filesystem \<times> nat" where
  "handle_duplicates depth self fs jdupes_output =
     (let duplicate_groups = str_split (strip jdupes_output) (newline @ newline) in
      fold (handle_group depth self) duplicate_groups (fs, 0))"

text \<open>
  \<^verbatim>\<open>run_jdupes_deduplication\<close>. Nothing in a dry run. When the detector returns 0, the
  statistic \<^verbatim>\<open>duplicates_found\<close> is set from its output (for every group that is not
  blank, the number of its lines less one) and the duplicates are moved; another return
  code, a timeout and a missing program are put on the error list; any other exception
  of the call leaves the function.
\<close>

definition run_jdupes_deduplication ::
  "externals \<Rightarrow> nat \<Rightarrow> PhotoConsolidator \<Rightarrow> filesystem
     \<Rightarrow> PhotoConsolidator \<times> filesystem \<times> exn option" where
  "run_jdupes_deduplication ext depth self fs =
     (if dry_run self then (self, fs, None)
      else
        case run_jdupes ext fs (stage_dir self @ [''raw_photos''])
               (stage_dir self @ [''processed_photos'']) of
          Completed rc out err \<Rightarrow>
            if rc = 0 then
              (let duplicate_groups = str_split (strip out) (newline @ newline);
                   total_duplicates =
                     sum_list (map (\<lambda>grp. length (str_split grp newline) - 1)
                                (filter (\<lambda>grp. strip grp \<noteq> []) duplicate_groups));
                   self1 = self\<lparr>stats := (stats self)\<lparr>duplicates_found := total_duplicates\<rparr>\<rparr>
               in (self1, fst (handle_duplicates depth self1 fs out), None))
            else (add_error (Jdupes_failed err) self, fs, None)
        | Raised e \<Rightarrow>
            if e = TimeoutExpired then (add_error Jdupes_timed_out self, fs, None)
            else if e = FileNotFoundError then (add_error Jdupes_not_installed self, fs, None)
            else (self, fs, Some e))"

section \<open>The capture date and the organization by date\<close>

text \<open>
  \<^verbatim>\<open>datetime.strptime(s, '%Y:%m:%d %H:%M:%S')\<close>. The format is a regular expression,
  matched from the start of the string with backtracking: every field is a list of
  alternatives tried in order, a blank of the format is one or more whitespace
  characters. A matcher returns the ways it can match, first choice first, each with
  the text left over. Digits are the ASCII digits.
\<close>

definition digit_val :: "char \<Rightarrow> nat" where
  "digit_val c = length (takeWhile (\<lambda>d. d \<noteq> c) ''0123456789'')"

definition alt2 :: "(nat \<Rightarrow> nat \<Rightarrow> bool) \<Rightarrow> string \<Rightarrow> (nat \<times> string) list" where
  "alt2 ok s =
     (case s of
        a # b # rest \<Rightarrow>
          if is_digit a \<and> is_digit b \<and> ok (digit_val a) (digit_val b)
          then [(10 * digit_val a + digit_val b, rest)] else []
      | _ \<Rightarrow> [])"

definition alt1 :: "(nat \<Rightarrow> bool) \<Rightarrow> string \<Rightarrow> (nat \<times> string) list" where
  "alt1 ok s =
     (case s of
        a # rest \<Rightarrow> if is_digit a \<and> ok (digit_val a) then [(digit_val a, rest)] else []
      | [] \<Rightarrow> [])"

definition lit :: "char \<Rightarrow> string \<Rightarrow> string list" where
  "lit c s = (case s of x # rest \<Rightarrow> if x = c then [rest] else [] | [] \<Rightarrow> [])"

text \<open>\<^verbatim>\<open>\s+\<close>: the longest run of whitespace first, then shorter ones, never none.\<close>

definition spaces :: "string \<Rightarrow> string list" where
  "spaces s = map (\<lambda>k. drop k s) (rev [1..<Suc (length (takeWhile is_space s))])"

text \<open>\<^verbatim>\<open>%Y\<close> is \<^verbatim>\<open>\d\d\d\d\<close>.\<close>

definition field_Y :: "string \<Rightarrow> (nat \<times> string) list" where
  "field_Y s =
     (case s of
        a # b # c # d # rest \<Rightarrow>
          if is_digit a \<and> is_digit b \<and> is_digit c \<and> is_digit d
          then [(1000 * digit_val a + 100 * digit_val b + 10 * digit_val c + digit_val d, rest)]
          else []
      | _ \<Rightarrow> [])"

text \<open>\<^verbatim>\<open>%m\<close> is \<^verbatim>\<open>1[0-2]|0[1-9]|[1-9]\<close>.\<close>

definition field_m :: "string \<Rightarrow> (nat \<times> string) list" where
  "field_m s =
     alt2 (\<lambda>a b. a = 1 \<and> b \<le> 2) s @ alt2 (\<lambda>a b. a = 0 \<and> 1 \<le> b) s @ alt1 (\<lambda>a. 1 \<le> a) s"

text \<open>\<^verbatim>\<open>%d\<close> is \<^verbatim>\<open>3[0-1]|[1-2]\d|0[1-9]|[1-9]| [1-9]\<close>.\<close>

definition field_d :: "string \<Rightarrow> (nat \<times> string) list" where
  "field_d s =
     alt2 (\<lambda>a b. a = 3 \<and> b \<le> 1) s @ alt2 (\<lambda>a b. 1 \<le> a \<and> a \<le> 2) s
     @ alt2 (\<lambda>a b. a = 0 \<and> 1 \<le> b) s @ alt1 (\<lambda>a. 1 \<le> a) s
     @ concat (map (alt1 (\<lambda>a. 1 \<le> a)) (lit CHR '' '' s))"

text \<open>\<^verbatim>\<open>%H\<close> is \<^verbatim>\<open>2[0-3]|[0-1]\d|\d\<close>, \<^verbatim>\<open>%M\<close> is \<^verbatim>\<open>[0-5]\d|\d\<close>, \<^verbatim>\<open>%S\<close> is
  \<^verbatim>\<open>6[0-1]|[0-5]\d|\d\<close>.\<close>

definition field_H :: "string \<Rightarrow> (nat \<times> string) list" where
  "field_H s =
     alt2 (\<lambda>a b. a = 2 \<and> b \<le> 3) s @ alt2 (\<lambda>a b. a \<le> 1) s @ alt1 (\<lambda>a. True) s"

definition field_M :: "string \<Rightarrow> (nat \<times> string) list" where
  "field_M s = alt2 (\<lambda>a b. a \<le> 5) s @ alt1 (\<lambda>a. True) s"

definition field_S :: "string \<Rightarrow> (nat \<times> string) list" where
  "field_S s =
     alt2 (\<lambda>a b. a = 6 \<and> b \<le> 1) s @ alt2 (\<lambda>a b. a \<le> 5) s @ alt1 (\<lambda>a. True) s"

definition format_matches :: "string \<Rightarrow> (datetime \<times> string) list" where
  "format_matches s =
     [(\<lparr>year = Y, month = m, day = d, hour = H, minute = M, second = S\<rparr>, s11).
        (Y, s1) \<leftarrow> field_Y s, s2 \<leftarrow> lit CHR '':'' s1,
        (m, s3) \<leftarrow> field_m s2, s4 \<leftarrow> lit CHR '':'' s3,
        (d, s5) \<leftarrow> field_d s4, s6 \<leftarrow> spaces s5,
        (H, s7) \<leftarrow> field_H s6, s8 \<leftarrow> lit CHR '':'' s7,
        (M, s9) \<leftarrow> field_M s8, s10 \<leftarrow> lit CHR '':'' s9,
        (S, s11) \<leftarrow> field_S s10]"

definition leap_year :: "nat \<Rightarrow> bool" where
  "leap_year y = (y mod 4 = 0 \<and> (y mod 100 \<noteq> 0 \<or> y mod 400 = 0))"

definition days_in_month :: "nat \<Rightarrow> nat \<Rightarrow> nat" where
  "days_in_month y m =
     (if m = 2 then (if leap_year y then 29 else 28)
      else if m \<in> {4, 6, 9, 11} then 30 else 31)"

text \<open>The values the \<^verbatim>\<open>datetime\<close> constructor accepts.\<close>

definition valid_datetime :: "datetime \<Rightarrow> bool" where
  "valid_datetime t =
     (1 \<le> year t \<and> year t \<le> 9999 \<and> 1 \<le> month t \<and> month t \<le> 12
      \<and> 1 \<le> day t \<and> day t \<le> days_in_month (year t) (month t)
      \<and> hour t \<le> 23 \<and> minute t \<le> 59 \<and> second t \<le> 59)"

text \<open>
  The first match counts; text left over after it (\<^verbatim>\<open>unconverted data remains\<close>) and a
  date that does not exist are \<^verbatim>\<open>ValueError\<close>, as is no match.
\<close>

definition strptime :: "string \<Rightarrow> exn + datetime" where
  "strptime s =
     (case format_matches s of
        [] \<Rightarrow> Inl ValueError
      | (t, rest) # other \<Rightarrow>
          if rest \<noteq> [] then Inl ValueError
          else if valid_datetime t then Inr t
          else Inl ValueError)"

text \<open>\<^verbatim>\<open>Path.stat().st_mtime\<close>; the script asks it of regular files only, and the time of
  a directory is not modelled (it is taken as 0).\<close>

definition st_mtime :: "filesystem \<Rightarrow> path \<Rightarrow> exn + int" where
  "st_mtime fs p =
     (case node_at fs p of
        None \<Rightarrow> Inl (lookup_error fs p)
      | Some (File c m) \<Rightarrow> Inr m
      | Some Dir \<Rightarrow> Inr 0)"

text \<open>
  \<^verbatim>\<open>_get_photo_date\<close>: first the body of its \<^verbatim>\<open>try\<close>. \<open>Inr (Some t)\<close> is a returned
  date, \<open>Inr None\<close> is leaving the \<^verbatim>\<open>if\<close> without one, \<open>Inl e\<close> an exception.
  \<^verbatim>\<open>date_line.split(': ', 1)[1]\<close> is \<^verbatim>\<open>IndexError\<close> when the line has no colon
  followed by a blank.
\<close>

definition exif_date :: "externals \<Rightarrow> filesystem \<Rightarrow> path \<Rightarrow> exn + datetime option" where
  "exif_date ext fs photo_path =
     (case run_exiftool ext fs photo_path of
        Raised e \<Rightarrow> Inl e
      | Completed rc out err \<Rightarrow>
          if rc = 0 \<and> contains ''Date/Time Original'' out then
            (let date_line = strip out in
             case split_once date_line '': '' of
               None \<Rightarrow> Inl IndexError
             | Some (label, date_str) \<Rightarrow>
                 (case strptime date_str of
                    Inl e \<Rightarrow> Inl e
                  | Inr t \<Rightarrow> Inr (Some t)))
          else Inr None)"

text \<open>
  A timeout, a missing program and a \<^verbatim>\<open>ValueError\<close> are passed over; then, and when
  the \<^verbatim>\<open>try\<close> returned nothing, the date is the modification time of the file. Any
  other exception leaves the function.
\<close>

definition mtime_date :: "externals \<Rightarrow> filesystem \<Rightarrow> path \<Rightarrow> exn + datetime" where
  "mtime_date ext fs photo_path =
     (case st_mtime fs photo_path of
        Inl e \<Rightarrow> Inl e
      | Inr m \<Rightarrow> Inr (fromtimestamp ext m))"

definition get_photo_date :: "externals \<Rightarrow> filesystem \<Rightarrow> path \<Rightarrow> exn + datetime" where
  "get_photo_date ext fs photo_path =
     (case exif_date ext fs photo_path of
        Inr (Some t) \<Rightarrow> Inr t
      | Inr None \<Rightarrow> mtime_date ext fs photo_path
      | Inl e \<Rightarrow>
          if e = TimeoutExpired \<or> e = FileNotFoundError \<or> e = ValueError
          then mtime_date ext fs photo_path
          else Inl e)"

text \<open>
  The body of the \<^verbatim>\<open>try\<close> of \<^verbatim>\<open>organize_by_date\<close> for one file: the date, the
  directory \<^verbatim>\<open>organized/YYYY/MM/DD\<close> (made with its parents), the move.
\<close>

definition day_dir_of :: "path \<Rightarrow> datetime \<Rightarrow> path" where
  "day_dir_of organized_dir photo_date =
     organized_dir @ [str_nat (year photo_date), pad2 (month photo_date), pad2 (day photo_date)]"

definition organize_file ::
  "externals \<Rightarrow> nat \<Rightarrow> filesystem \<Rightarrow> path \<Rightarrow> path \<Rightarrow> filesystem \<times> exn option" where
  "organize_file ext depth fs organized_dir photo_file =
     (case get_photo_date ext fs photo_file of
        Inl e \<Rightarrow> (fs, Some e)
      | Inr photo_date \<Rightarrow>
          (let day_dir = day_dir_of organized_dir photo_date in
           case mkdir_parents fs day_dir of
             (fs1, Some e) \<Rightarrow> (fs1, Some e)
           | (fs1, None) \<Rightarrow>
               shutil_move depth fs1 photo_file (day_dir @ [path_name photo_file])))"

text \<open>
  The loop over the files of one photo directory. The state is the filesystem, the
  counter \<^verbatim>\<open>organized_count\<close> and the failures the \<^verbatim>\<open>except\<close> clause logs (it does
  nothing else with them). Listing a photo directory that is no directory raises.
\<close>

type_synonym organize_state = "filesystem \<times> nat \<times> (path \<times> exn) list"

definition organize_one ::
  "externals \<Rightarrow> nat \<Rightarrow> path \<Rightarrow> path \<Rightarrow> organize_state \<Rightarrow> organize_state" where
  "organize_one ext depth organized_dir photo_file = (\<lambda>(fs, organized_count, logged).
     if is_file fs photo_file then
       (case organize_file ext depth fs organized_dir photo_file of
          (fs1, None) \<Rightarrow> (fs1, organized_count + 1, logged)
        | (fs1, Some e) \<Rightarrow> (fs1, organized_count, logged @ [(photo_file, e)]))
     else (fs, organized_count, logged))"

definition organize_photo_dir ::
  "externals \<Rightarrow> nat \<Rightarrow> path \<Rightarrow> path \<Rightarrow> organize_state \<Rightarrow> organize_state \<times> exn option" where
  "organize_photo_dir ext depth organized_dir photo_dir = (\<lambda>(fs, organized_count, logged).
     if \<not> path_exists fs photo_dir then ((fs, organized_count, logged), None)
     else
       case iterdir fs photo_dir of
         Inl e \<Rightarrow> ((fs, organized_count, logged), Some e)
       | Inr photo_files \<Rightarrow>
           (fold (organize_one ext depth organized_dir) photo_files
              (fs, organized_count, logged), None))"

text \<open>
  \<^verbatim>\<open>organize_by_date\<close>: nothing in a dry run; otherwise the directory \<^verbatim>\<open>organized\<close>
  is made and the two photo directories are gone through. The statistics are not
  touched. The result holds the logged failures beside the filesystem.
\<close>

definition organize_by_date ::
  "externals \<Rightarrow> nat \<Rightarrow> PhotoConsolidator \<Rightarrow> filesystem
     \<Rightarrow> PhotoConsolidator \<times> filesystem \<times> (path \<times> exn) list \<times> exn option" where
  "organize_by_date ext depth self fs =
     (if dry_run self then (self, fs, [], None)
      else
        let organized_dir = stage_dir self @ [''organized''] in
        case mkdir_exist_ok fs organized_dir of
          (fs1, Some e) \<Rightarrow> (self, fs1, [], Some e)
        | (fs1, None) \<Rightarrow>
            (case for_each (organize_photo_dir ext depth organized_dir)
                    [stage_dir self @ [''raw_photos''], stage_dir self @ [''processed_photos'']]
                    (fs1, 0, []) of
               ((fs2, organized_count, logged), r) \<Rightarrow> (self, fs2, logged, r)))"

text \<open>
  A capture time written as the reader writes it, and the line of the reader's output
  that carries it.
\<close>

definition pad4 :: "nat \<Rightarrow> string" where
  "pad4 n = [digit_char (n div 100 div 10), digit_char (n div 100 mod 10),
             digit_char (n mod 100 div 10), digit_char (n mod 100 mod 10)]"

text \<open>\<^verbatim>\<open>'%Y:%m:%d %H:%M:%S'\<close> written out, as the reader prints a capture time.\<close>

definition strftime :: "datetime \<Rightarrow> string" where
  "strftime t = pad4 (year t) @ '':'' @ pad2 (month t) @ '':'' @ pad2 (day t) @ '' ''
                @ pad2 (hour t) @ '':'' @ pad2 (minute t) @ '':'' @ pad2 (second t)"

definition capture_line :: "datetime \<Rightarrow> string" where
  "capture_line t = ''Date/Time Original              : '' @ strftime t @ newline"

text \<open>
  The capture date as the specification words it: the date parsed from the reader's
  original-capture field when the reader returns 0 with the field and the field parses;
  otherwise the modification time of the file.
\<close>

definition capture_field :: "proc \<Rightarrow> string option" where
  "capture_field r =
     (case r of
        Completed rc out err \<Rightarrow>
          if rc = 0 \<and> contains ''Date/Time Original'' out
          then map_option snd (split_once (strip out) '': '')
          else None
      | Raised e \<Rightarrow> None)"

definition parse_capture :: "string \<Rightarrow> datetime option" where
  "parse_capture s = (case strptime s of Inr t \<Rightarrow> Some t | Inl e \<Rightarrow> None)"

definition resolved_capture_date :: "externals \<Rightarrow> filesystem \<Rightarrow> path \<Rightarrow> datetime option" where
  "resolved_capture_date ext fs p =
     (case Option.bind (capture_field (run_exiftool ext fs p)) parse_capture of
        Some t \<Rightarrow> Some t
      | None \<Rightarrow>
          (case node_at fs p of
             Some (File c m) \<Rightarrow> Some (fromtimestamp ext m)
           | _ \<Rightarrow> None))"

section \<open>Discovery, staging and the whole run\<close>

text \<open>The extension sets of the constructor, and \<^verbatim>\<open>str.lower()\<close> on ASCII letters.\<close>

definition raw_extensions :: "string list" where
  "raw_extensions = [''.cr2'', ''.raw'', ''.dng'', ''.nef'', ''.arw'', ''.orf'', ''.rw2'']"

definition photo_extensions :: "string list" where
  "photo_extensions =
     [''.cr2'', ''.raw'', ''.dng'', ''.nef'', ''.arw'', ''.orf'', ''.rw2'',
      ''.jpg'', ''.jpeg'', ''.tif'', ''.tiff'', ''.png'', ''.bmp'']"

definition video_extensions :: "string list" where
  "video_extensions = [''.mp4'', ''.mov'', ''.avi'', ''.mkv'', ''.m4v'', ''.3gp'']"

definition char_lower :: "char \<Rightarrow> char" where
  "char_lower c =
     (case map_of (zip ''ABCDEFGHIJKLMNOPQRSTUVWXYZ'' ''abcdefghijklmnopqrstuvwxyz'') c of
        Some l \<Rightarrow> l
      | None \<Rightarrow> c)"

definition str_lower :: "string \<Rightarrow> string" where
  "str_lower s = map char_lower s"

text \<open>
  \<^verbatim>\<open>os.walk(top)\<close>, top down, with the loop body run between the listing of a directory
  and the walk of its subdirectories, as the generator does it. A directory that cannot
  be listed is passed over. The walk of a subdirectory is a nested call (the first
  argument bounds the nesting, as in \<open>copytree\<close>); a version of the library that
  walks with a stack of its own never reaches a bound, and is this function at any bound
  that is not reached. \<open>fs_of\<close> reads the filesystem out of the state of the loop.
\<close>

fun os_walk ::
  "nat \<Rightarrow> ('s \<Rightarrow> filesystem) \<Rightarrow> (path \<Rightarrow> string list \<Rightarrow> string list \<Rightarrow> 's \<Rightarrow> 's \<times> exn option)
     \<Rightarrow> path \<Rightarrow> 's \<Rightarrow> 's \<times> exn option" where
  "os_walk 0 fs_of body top_dir s = (s, Some RecursionError)"
| "os_walk (Suc d) fs_of body top_dir s =
     (if \<not> is_dir (fs_of s) top_dir then (s, None)
      else
        let names = os_listdir (fs_of s) top_dir;
            dirs = filter (\<lambda>n. is_dir (fs_of s) (top_dir @ [n])) names;
            files = filter (\<lambda>n. \<not> is_dir (fs_of s) (top_dir @ [n])) names in
        case body top_dir dirs files s of
          (s1, Some e) \<Rightarrow> (s1, Some e)
        | (s1, None) \<Rightarrow>
            for_each (\<lambda>dirname s2. os_walk d fs_of body (top_dir @ [dirname]) s2) dirs s1)"

text \<open>\<^verbatim>\<open>_count_photos_in_path\<close> and \<^verbatim>\<open>_get_directory_size_mb\<close> (the size of a file is
  the number of its bytes, and the size of a directory, which the walk never hands to the
  body as a file, is left at 0; the quotient is a rational number here, a float there).\<close>

definition count_photos_in_path :: "nat \<Rightarrow> filesystem \<Rightarrow> path \<Rightarrow> exn + nat" where
  "count_photos_in_path depth fs p =
     (case os_walk depth fst
             (\<lambda>root_dir dirs files (fs1, count).
                ((fs1, count + length (filter (\<lambda>file. str_lower (suffix_of file) \<in> set photo_extensions)
                                         files)), None))
             p (fs, 0) of
        ((fs1, count), None) \<Rightarrow> Inr count
      | ((fs1, count), Some e) \<Rightarrow> Inl e)"

definition st_size :: "filesystem \<Rightarrow> path \<Rightarrow> exn + nat" where
  "st_size fs p =
     (case node_at fs p of
        None \<Rightarrow> Inl (lookup_error fs p)
      | Some (File c m) \<Rightarrow> Inr (length c)
      | Some Dir \<Rightarrow> Inr 0)"

definition get_directory_size_mb :: "nat \<Rightarrow> filesystem \<Rightarrow> path \<Rightarrow> exn + rat" where
  "get_directory_size_mb depth fs p =
     (case os_walk depth fst
             (\<lambda>root_dir dirs files (fs1, total_size).
                ((fs1, fold (\<lambda>file total.
                               case st_size fs1 (root_dir @ [file]) of
                                 Inr n \<Rightarrow> total + n
                               | Inl e \<Rightarrow> total)
                          files total_size), None))
             p (fs, 0) of
        ((fs1, total_size), None) \<Rightarrow> Inr (of_nat total_size / (1024 * 1024))
      | ((fs1, total_size), Some e) \<Rightarrow> Inl e)"

text \<open>\<^verbatim>\<open>discover_photo_sources\<close>: the three configured roots, those that exist.\<close>

record source_info =
  info_path :: path
  file_count :: nat
  size_mb :: rat

definition configured_sources :: "(string \<times> path) list" where
  "configured_sources =
     [(''primary'', [''data'', ''Photography'']),
      (''media_drive'', [''media'', ''joel'']),
      (''external'', [''mnt'', ''external''])]"

definition discover_photo_sources ::
  "nat \<Rightarrow> filesystem \<Rightarrow> exn + (string \<times> source_info) list" where
  "discover_photo_sources depth fs =
     (case for_each
             (\<lambda>(name, p) discovered.
                if path_exists fs p then
                  (case count_photos_in_path depth fs p of
                     Inl e \<Rightarrow> (discovered, Some e)
                   | Inr n \<Rightarrow>
                       (case get_directory_size_mb depth fs p of
                          Inl e \<Rightarrow> (discovered, Some e)
                        | Inr mb \<Rightarrow>
                            (discovered @ [(name, \<lparr>info_path = p, file_count = n, size_mb = mb\<rparr>)],
                             None)))
                else (discovered, None))
             configured_sources [] of
        (discovered, None) \<Rightarrow> Inr discovered
      | (discovered, Some e) \<Rightarrow> Inl e)"

text \<open>\<^verbatim>\<open>prepare_staging_area\<close>.\<close>

definition prepare_staging_area :: "PhotoConsolidator \<Rightarrow> filesystem \<Rightarrow> filesystem \<times> exn option" where
  "prepare_staging_area self fs =
     (if dry_run self then (fs, None)
      else
        case mkdir_parents fs (stage_dir self) of
          (fs1, Some e) \<Rightarrow> (fs1, Some e)
        | (fs1, None) \<Rightarrow>
            for_each (\<lambda>sub fs2. mkdir_exist_ok fs2 (stage_dir self @ [sub]))
              [''raw_photos'', ''processed_photos'', ''videos'', ''duplicates''] fs1)"

text \<open>
  \<^verbatim>\<open>_copy_photos_from_source\<close>: the body of the inner loop for one file. A file of no
  media class is passed over. In a dry run nothing is copied and the file is counted; a
  failed copy is put on the error list and the loop goes on.
\<close>

type_synonym gather_state = "PhotoConsolidator \<times> filesystem \<times> nat"

definition copy_one :: "string \<Rightarrow> path \<Rightarrow> string \<Rightarrow> gather_state \<Rightarrow> gather_state" where
  "copy_one source_name root_dir file = (\<lambda>(self, fs, copied).
     let file_path = root_dir @ [file];
         extension = str_lower (suffix_of (path_name file_path)) in
     if extension \<notin> set photo_extensions \<and> extension \<notin> set video_extensions
     then (self, fs, copied)
     else
       let dest_subdir =
             (if extension \<in> set photo_extensions
              then (if extension \<in> set raw_extensions then ''raw_photos'' else ''processed_photos'')
              else ''videos'');
           dest_file = source_name @ ''_'' @ file;
           dest_path = path_join (stage_dir self @ [dest_subdir]) dest_file in
       case (if \<not> dry_run self then copy2 fs file_path dest_path else (fs, None)) of
         (fs1, None) \<Rightarrow>
           (self\<lparr>stats := (stats self)\<lparr>files_copied := files_copied (stats self) + 1\<rparr>\<rparr>,
            fs1, copied + 1)
       | (fs1, Some e) \<Rightarrow> (add_error (Failed_to_copy file_path e) self, fs1, copied))"

definition copy_photos_from_source ::
  "nat \<Rightarrow> PhotoConsolidator \<Rightarrow> filesystem \<Rightarrow> path \<Rightarrow> string
     \<Rightarrow> PhotoConsolidator \<times> filesystem \<times> exn option" where
  "copy_photos_from_source depth self fs source_path source_name =
     (case os_walk depth (\<lambda>(self1, fs1, copied). fs1)
             (\<lambda>root_dir dirs files s. (fold (copy_one source_name root_dir) files s, None))
             source_path (self, fs, 0) of
        ((self1, fs1, copied), r) \<Rightarrow> (self1, fs1, r))"

text \<open>\<^verbatim>\<open>gather_all_photos\<close>.\<close>

definition gather_all_photos ::
  "nat \<Rightarrow> PhotoConsolidator \<Rightarrow> filesystem \<Rightarrow> (string \<times> source_info) list
     \<Rightarrow> PhotoConsolidator \<times> filesystem \<times> exn option" where
  "gather_all_photos depth self fs sources =
     (case for_each
             (\<lambda>(source_name, info) (self1, fs1).
                case copy_photos_from_source depth self1 fs1 (info_path info) source_name of
                  (self2, fs2, r) \<Rightarrow> ((self2, fs2), r))
             sources (self, fs) of
        ((self1, fs1), r) \<Rightarrow> (self1, fs1, r))"

text \<open>
  \<^verbatim>\<open>generate_report\<close>: the report is written to its fixed path, in a dry run as in any
  other (the report carries the flag).
\<close>

definition report_file :: path where
  "report_file = [''tmp'', ''photo_consolidation_report.json'']"

definition generate_report ::
  "externals \<Rightarrow> PhotoConsolidator \<Rightarrow> filesystem \<Rightarrow> filesystem \<times> (exn + report)" where
  "generate_report ext self fs =
     (let rep = \<lparr>consolidation_date = now_isoformat ext, statistics = stats self,
                 report_dry_run = dry_run self, stage_directory = stage_dir self\<rparr> in
      case open_w fs report_file of
        Some e \<Rightarrow> (fs, Inl e)
      | None \<Rightarrow>
          (write_node fs report_file (File (json_dump ext rep) (now_timestamp ext)), Inr rep))"

text \<open>
  \<^verbatim>\<open>run_full_consolidation\<close>: the seven steps of its \<^verbatim>\<open>try\<close>, each leaving at the first
  exception, and the handler that records the exception and raises it again.
\<close>

definition consolidation_steps ::
  "externals \<Rightarrow> nat \<Rightarrow> PhotoConsolidator \<Rightarrow> filesystem
     \<Rightarrow> PhotoConsolidator \<times> filesystem \<times> exn option" where
  "consolidation_steps ext depth self fs =
     (case discover_photo_sources depth fs of
        Inl e \<Rightarrow> (self, fs, Some e)
      | Inr sources \<Rightarrow>
          let self1 = self\<lparr>stats := (stats self)
                        \<lparr>files_found := sum_list (map (\<lambda>(name, s). file_count s) sources),
                         total_size_mb := sum_list (map (\<lambda>(name, s). size_mb s) sources)\<rparr>\<rparr> in
          case prepare_staging_area self1 fs of
            (fs2, Some e) \<Rightarrow> (self1, fs2, Some e)
          | (fs2, None) \<Rightarrow>
              (case gather_all_photos depth self1 fs2 sources of
                 (self3, fs3, Some e) \<Rightarrow> (self3, fs3, Some e)
               | (self3, fs3, None) \<Rightarrow>
                   (case run_jdupes_deduplication ext depth self3 fs3 of
                      (self4, fs4, Some e) \<Rightarrow> (self4, fs4, Some e)
                    | (self4, fs4, None) \<Rightarrow>
                        (case organize_by_date ext depth self4 fs4 of
                           (self5, fs5, logged, Some e) \<Rightarrow> (self5, fs5, Some e)
                         | (self5, fs5, logged, None) \<Rightarrow>
                             (case import_to_darktable ext depth self5 fs5 of
                                (self6, fs6) \<Rightarrow>
                                  (case generate_report ext self6 fs6 of
                                     (fs7, Inl e) \<Rightarrow> (self6, fs7, Some e)
                                   | (fs7, Inr rep) \<Rightarrow> (self6, fs7, None)))))))"

definition run_full_consolidation ::
  "externals \<Rightarrow> nat \<Rightarrow> PhotoConsolidator \<Rightarrow> filesystem
     \<Rightarrow> PhotoConsolidator \<times> filesystem \<times> exn option" where
  "run_full_consolidation ext depth self fs =
     (case consolidation_steps ext depth self fs of
        (self1, fs1, None) \<Rightarrow> (self1, fs1, None)
      | (self1, fs1, Some e) \<Rightarrow> (add_error (Consolidation_failed e) self1, fs1, Some e))"

text \<open>
  \<^verbatim>\<open>main\<close>. The parser admits six step names and no other. \<^verbatim>\<open>discover\<close> prints the
  sources, \<^verbatim>\<open>all\<close> runs the consolidation, and every other step logs that it is
  not implemented yet.
\<close>

datatype step = Discover | Gather | Dedupe | Organize | Import | All

record args =
  arg_dry_run :: bool
  arg_stage_dir :: string
  arg_step :: step

datatype main_outcome =
    Printed "(string \<times> source_info) list"
  | Consolidated PhotoConsolidator
  | Logged_not_implemented step
  | Uncaught exn

definition initial_stats :: ConsolidationStats where
  "initial_stats = \<lparr>files_found = 0, duplicates_found = 0, files_copied = 0,
                     total_size_mb = 0, errors = []\<rparr>"

definition main :: "externals \<Rightarrow> nat \<Rightarrow> args \<Rightarrow> filesystem \<Rightarrow> filesystem \<times> main_outcome" where
  "main ext depth a fs =
     (let consolidator = \<lparr>stage_dir = Path (arg_stage_dir a), dry_run = arg_dry_run a,
                          stats = initial_stats\<rparr> in
      if arg_step a = Discover then
        (case discover_photo_sources depth fs of
           Inl e \<Rightarrow> (fs, Uncaught e)
         | Inr sources \<Rightarrow> (fs, Printed sources))
      else if arg_step a = All then
        (case run_full_consolidation ext depth consolidator fs of
           (self1, fs1, None) \<Rightarrow> (fs1, Consolidated self1)
         | (self1, fs1, Some e) \<Rightarrow> (fs1, Uncaught e))
      else (fs, Logged_not_implemented (arg_step a)))"

section \<open>Relations between two states of the filesystem\<close>

text \<open>
  \<open>preserved fs fs'\<close>: every entry of \<open>fs\<close> is an entry of \<open>fs'\<close>, with the same node.
  \<open>kept_outside dst fs fs'\<close> asks this of the entries that are not at or below \<open>dst\<close>.
  \<open>near dst fs fs'\<close>: the two states agree at every path that is neither above nor
  below \<open>dst\<close> (nor \<open>dst\<close> itself). \<open>shallower fs depth\<close>: every path of the table
  has fewer than \<open>depth\<close> components.
\<close>

definition preserved :: "filesystem \<Rightarrow> filesystem \<Rightarrow> bool" where
  "preserved fs fs' = (\<forall>p n. node_at fs p = Some n \<longrightarrow> node_at fs' p = Some n)"

definition kept_outside :: "path \<Rightarrow> filesystem \<Rightarrow> filesystem \<Rightarrow> bool" where
  "kept_outside dst fs fs' =
     (\<forall>p n. node_at fs p = Some n \<and> \<not> prefix dst p \<longrightarrow> node_at fs' p = Some n)"

definition near :: "path \<Rightarrow> filesystem \<Rightarrow> filesystem \<Rightarrow> bool" where
  "near dst fs fs' = (\<forall>p. \<not> prefix p dst \<and> \<not> prefix dst p \<longrightarrow> node_at fs' p = node_at fs p)"

definition shallower :: "filesystem \<Rightarrow> nat \<Rightarrow> bool" where
  "shallower fs depth = list_all (\<lambda>(p, n). length p < depth) fs"

text \<open>
  The detector's output as \<^verbatim>\<open>_handle_duplicates\<close> reads it. \<open>group_count grp\<close> is what
  a group adds to the reported total: the number of its line feeds, and nothing for a
  blank group; \<open>reported_duplicates\<close> is the sum over the groups. \<open>group_lines grp\<close> are
  the lines of a group that is neither blank nor a single line, \<open>dup_groups out\<close> those
  groups as lists of paths.
\<close>

definition group_count :: "string \<Rightarrow> nat" where
  "group_count grp = (if strip grp = [] then 0 else count_list grp (CHR 0x0A))"

definition reported_duplicates :: "string \<Rightarrow> nat" where
  "reported_duplicates out =
     sum_list (map group_count (str_split (strip out) (newline @ newline)))"

definition group_lines :: "string \<Rightarrow> string list" where
  "group_lines grp =
     (if strip grp = [] \<or> length (str_split (strip grp) newline) < 2 then []
      else str_split (strip grp) newline)"

definition dup_groups :: "string \<Rightarrow> path list list" where
  "dup_groups out =
     map (map (\<lambda>l. Path (strip l)))
       (filter (\<lambda>ls. ls \<noteq> []) (map group_lines (str_split (strip out) (newline @ newline))))"

text \<open>
  \<open>quarantine_path\<close> is the move of \<open>quarantine_one\<close> for a path already parsed and a
  quarantine directory \<open>q\<close>. \<open>movable q fs p\<close>: \<open>p\<close> is a regular file outside \<open>q\<close>
  and no directory of its name is in \<open>q\<close>. \<open>quarantined q fs ps fs'\<close>: from \<open>fs\<close> to
  \<open>fs'\<close> the paths \<open>ps\<close> have gone, a regular file of each name is in \<open>q\<close> (the file
  itself when the names differ from each other), and nothing else has changed.
\<close>

definition quarantine_path ::
  "nat \<Rightarrow> path \<Rightarrow> path \<Rightarrow> filesystem \<times> nat \<Rightarrow> filesystem \<times> nat" where
  "quarantine_path depth q p = (\<lambda>(fs, moved).
     if path_exists fs p then
       (case shutil_move depth fs p (path_join q (path_name p)) of
          (fs1, None) \<Rightarrow> (fs1, moved + 1)
        | (fs1, Some e) \<Rightarrow> (fs1, moved))
     else (fs, moved))"

definition movable :: "path \<Rightarrow> filesystem \<Rightarrow> path \<Rightarrow> bool" where
  "movable q fs p \<longleftrightarrow>
     is_file fs p \<and> \<not> prefix q p \<and> \<not> is_dir fs (q @ [path_name p])
     \<and> path_join q (path_name p) = q @ [path_name p]"

definition quarantined :: "path \<Rightarrow> filesystem \<Rightarrow> path list \<Rightarrow> filesystem \<Rightarrow> bool" where
  "quarantined q fs ps fs' \<longleftrightarrow>
     (\<forall>x. x \<notin> set ps \<and> x \<notin> (\<lambda>p. q @ [path_name p]) ` set ps \<longrightarrow> node_at fs' x = node_at fs x)
   \<and> (\<forall>p\<in>set ps. node_at fs' p = None)
   \<and> (\<forall>p\<in>set ps. is_file fs' (q @ [path_name p]))
   \<and> (\<forall>x. is_dir fs' x = is_dir fs x)
   \<and> (inj_on path_name (set ps) \<longrightarrow> (\<forall>p\<in>set ps. node_at fs' (q @ [path_name p]) = node_at fs p))"

section \<open>A library and a staging area to run the steps on\<close>

text \<open>
  The library holds \<^verbatim>\<open>2020/03/15/IMG_01.jpg\<close>; the organized tree of the staging area
  \<^verbatim>\<open>/mnt/staging\<close> holds another file of that name for the same day, and one file of a
  year the library does not have.
\<close>

definition demo_fs :: filesystem where
  "demo_fs =
    [([], Dir),
     ([''data''], Dir),
     ([''data'', ''Photography''], Dir),
     ([''data'', ''Photography'', ''2020''], Dir),
     ([''data'', ''Photography'', ''2020'', ''03''], Dir),
     ([''data'', ''Photography'', ''2020'', ''03'', ''15''], Dir),
     ([''data'', ''Photography'', ''2020'', ''03'', ''15'', ''IMG_01.jpg''], File ''old'' 100),
     ([''mnt''], Dir),
     ([''mnt'', ''staging''], Dir),
     ([''mnt'', ''staging'', ''organized''], Dir),
     ([''mnt'', ''staging'', ''organized'', ''2020''], Dir),
     ([''mnt'', ''staging'', ''organized'', ''2020'', ''03''], Dir),
     ([''mnt'', ''staging'', ''organized'', ''2020'', ''03'', ''15''], Dir),
     ([''mnt'', ''staging'', ''organized'', ''2020'', ''03'', ''15'', ''IMG_01.jpg''], File ''new'' 200),
     ([''mnt'', ''staging'', ''organized'', ''2021''], Dir),
     ([''mnt'', ''staging'', ''organized'', ''2021'', ''01''], Dir),
     ([''mnt'', ''staging'', ''organized'', ''2021'', ''01'', ''02''], Dir),
     ([''mnt'', ''staging'', ''organized'', ''2021'', ''01'', ''02'', ''IMG_07.jpg''], File ''seven'' 300)]"

text \<open>The same, where the library's day directory already has an \<^verbatim>\<open>IMG_01_1.jpg\<close>.\<close>

definition taken_fs :: filesystem where
  "taken_fs = demo_fs @
     [([''data'', ''Photography'', ''2020'', ''03'', ''15'', ''IMG_01_1.jpg''], File ''first'' 150)]"

definition demo_stats :: ConsolidationStats where
  "demo_stats = \<lparr>files_found = 0, duplicates_found = 0, files_copied = 0,
                  total_size_mb = 0, errors = []\<rparr>"

definition demo_self :: PhotoConsolidator where
  "demo_self = \<lparr>stage_dir = [''mnt'', ''staging''], dry_run = False, stats = demo_stats\<rparr>"

text \<open>No external program is installed; the clock stands still.\<close>

definition demo_ext :: externals where
  "demo_ext =
     \<lparr>run_jdupes = (\<lambda>fs a b. Raised FileNotFoundError),
      run_exiftool = (\<lambda>fs p. Raised FileNotFoundError),
      run_darktable_cli = (\<lambda>fs. Raised FileNotFoundError),
      fromtimestamp = (\<lambda>t. \<lparr>year = 2023, month = 1, day = 1, hour = 0, minute = 0, second = 0\<rparr>),
      now_isoformat = ''2025-11-30T00:00:00'',
      now_timestamp = 1000,
      json_dump = (\<lambda>r. ''{}'')\<rparr>"

text \<open>
  A staging area after the copy of two sources: \<^verbatim>\<open>A_img001.cr2\<close> and \<^verbatim>\<open>B_photo.cr2\<close> hold
  the same bytes, and the detector reports them as one group.
\<close>

definition staged_fs :: filesystem where
  "staged_fs =
    [([], Dir),
     ([''mnt''], Dir),
     ([''mnt'', ''staging''], Dir),
     ([''mnt'', ''staging'', ''raw_photos''], Dir),
     ([''mnt'', ''staging'', ''processed_photos''], Dir),
     ([''mnt'', ''staging'', ''videos''], Dir),
     ([''mnt'', ''staging'', ''duplicates''], Dir),
     ([''mnt'', ''staging'', ''raw_photos'', ''A_img001.cr2''], File ''RAW'' 10),
     ([''mnt'', ''staging'', ''raw_photos'', ''B_photo.cr2''], File ''RAW'' 20),
     ([''mnt'', ''staging'', ''processed_photos'', ''A_pic.jpg''], File ''JPG'' 30)]"

definition detector_out :: string where
  "detector_out =
     ''/mnt/staging/raw_photos/A_img001.cr2'' @ newline
     @ ''/mnt/staging/raw_photos/B_photo.cr2'' @ newline"

text \<open>The same group with a third path that is no longer there.\<close>

definition detector_out_gone :: string where
  "detector_out_gone =
     ''/mnt/staging/raw_photos/A_img001.cr2'' @ newline
     @ ''/mnt/staging/raw_photos/B_photo.cr2'' @ newline
     @ ''/mnt/staging/raw_photos/gone.cr2'' @ newline"

definition detector_ext :: "string \<Rightarrow> externals" where
  "detector_ext out = demo_ext\<lparr>run_jdupes := (\<lambda>fs a b. Completed 0 out [])\<rparr>"

text \<open>
  A staging area whose \<^verbatim>\<open>raw_photos\<close> has two subdirectories, each with a file
  \<^verbatim>\<open>x.cr2\<close>: one is a duplicate of \<^verbatim>\<open>A_x.cr2\<close>, the other of \<^verbatim>\<open>A_y.cr2\<close>.
\<close>

definition collide_fs :: filesystem where
  "collide_fs =
    [([], Dir),
     ([''mnt''], Dir),
     ([''mnt'', ''staging''], Dir),
     ([''mnt'', ''staging'', ''raw_photos''], Dir),
     ([''mnt'', ''staging'', ''processed_photos''], Dir),
     ([''mnt'', ''staging'', ''duplicates''], Dir),
     ([''mnt'', ''staging'', ''raw_photos'', ''A_x.cr2''], File ''ONE'' 10),
     ([''mnt'', ''staging'', ''raw_photos'', ''A_y.cr2''], File ''TWO'' 20),
     ([''mnt'', ''staging'', ''raw_photos'', ''old1''], Dir),
     ([''mnt'', ''staging'', ''raw_photos'', ''old1'', ''x.cr2''], File ''ONE'' 30),
     ([''mnt'', ''staging'', ''raw_photos'', ''old2''], Dir),
     ([''mnt'', ''staging'', ''raw_photos'', ''old2'', ''x.cr2''], File ''TWO'' 40)]"

definition collide_out :: string where
  "collide_out =
     ''/mnt/staging/raw_photos/A_x.cr2'' @ newline
     @ ''/mnt/staging/raw_photos/old1/x.cr2'' @ newline @ newline
     @ ''/mnt/staging/raw_photos/A_y.cr2'' @ newline
     @ ''/mnt/staging/raw_photos/old2/x.cr2'' @ newline"

text \<open>
  The metadata reader knows a capture time for \<^verbatim>\<open>A_img001.cr2\<close> only: 4 July 2019,
  10:15:00. Every modification time is in 2023 (\<open>demo_ext\<close>).
\<close>

definition exif_ext :: externals where
  "exif_ext = demo_ext\<lparr>run_exiftool := (\<lambda>fs p.
       if p = [''mnt'', ''staging'', ''raw_photos'', ''A_img001.cr2'']
       then Completed 0
              (capture_line \<lparr>year = 2019, month = 7, day = 4, hour = 10, minute = 15, second = 0\<rparr>) []
       else Completed 0 [] [])\<rparr>"

text \<open>The same staging area with a regular file in the way of \<^verbatim>\<open>organized/2019\<close>.\<close>

definition stray_fs :: filesystem where
  "stray_fs = staged_fs @
     [([''mnt'', ''staging'', ''organized''], Dir),
      ([''mnt'', ''staging'', ''organized'', ''2019''], File ''stray'' 5)]"

text \<open>The same staging area with a directory \<^verbatim>\<open>B_photo.cr2\<close> in the quarantine directory,
  holding an entry of that name.\<close>

definition blocked_fs :: filesystem where
  "blocked_fs = staged_fs @
     [([''mnt'', ''staging'', ''duplicates'', ''B_photo.cr2''], Dir),
      ([''mnt'', ''staging'', ''duplicates'', ''B_photo.cr2'', ''B_photo.cr2''], File ''kept'' 7)]"

text \<open>Two sources with three media files and a text file; no staging area yet.\<close>

definition source_fs :: filesystem where
  "source_fs =
    [([], Dir),
     ([''tmp''], Dir),
     ([''mnt''], Dir),
     ([''data''], Dir),
     ([''data'', ''Photography''], Dir),
     ([''data'', ''Photography'', ''trip''], Dir),
     ([''data'', ''Photography'', ''trip'', ''img001.CR2''], File ''RAW'' 10),
     ([''data'', ''Photography'', ''trip'', ''notes.txt''], File ''text'' 11),
     ([''data'', ''Photography'', ''pic.jpg''], File ''JPG'' 12),
     ([''media''], Dir),
     ([''media'', ''joel''], Dir),
     ([''media'', ''joel'', ''clip.mp4''], File ''MOV'' 13)]"

definition dry_self :: PhotoConsolidator where
  "dry_self = \<lparr>stage_dir = [''mnt'', ''staging''], dry_run = True, stats = initial_stats\<rparr>"

definition step_args :: "step \<Rightarrow> args" where
  "step_args s = \<lparr>arg_dry_run = False, arg_stage_dir = ''/mnt/staging'', arg_step = s\<rparr>"

section \<open>What the copying operations leave alone\<close>

text \<open>
  The merge is a sequence of writes to paths that do not exist, so it keeps the relation
  \<open>preserved\<close>; \<open>copytree\<close> is such a sequence as long as its destination is new.
\<close>

lemma wf_fs_iff:
  "wf_fs fs \<longleftrightarrow> (\<forall>p. path_exists fs p \<and> p \<noteq> [] \<longrightarrow> is_dir fs (parent p))"
proof -
  have "path_exists fs p \<longleftrightarrow> p \<in> set (map fst fs)" for p
    by (auto simp: path_exists_def node_at_def map_of_eq_None_iff)
  then show ?thesis
    by (auto simp: wf_fs_def list_all_iff)
qed

lemma preserved_refl: "preserved fs fs"
  by (simp add: preserved_def)

lemma preserved_trans: "preserved a b \<Longrightarrow> preserved b c \<Longrightarrow> preserved a c"
  by (simp add: preserved_def)

lemma node_at_write: "node_at (write_node fs p n) q = (if q = p then Some n else node_at fs q)"
  by (simp add: node_at_def write_node_def update_conv')

lemma node_at_remove: "node_at (remove_node fs p) q = (if q = p then None else node_at fs q)"
  by (simp add: node_at_def remove_node_def delete_conv')

lemma preserved_write_new: "\<not> path_exists fs p \<Longrightarrow> preserved fs (write_node fs p n)"
  by (auto simp: preserved_def node_at_write path_exists_def)

lemma wf_write_file:
  assumes "wf_fs fs" "\<not> is_dir fs p" "p \<noteq> []" "is_dir fs (parent p)"
  shows "wf_fs (write_node fs p (File c m))"
  unfolding wf_fs_iff
proof (intro allI impI)
  fix q assume q: "path_exists (write_node fs p (File c m)) q \<and> q \<noteq> []"
  have pp: "parent p \<noteq> p" using assms(3) by (simp add: parent_def) (metis butlast_snoc append_butlast_last_id length_append_singleton n_not_Suc_n)
  show "is_dir (write_node fs p (File c m)) (parent q)"
  proof (cases "q = p")
    case True
    with assms(4) pp show ?thesis by (simp add: is_dir_def node_at_write)
  next
    case False
    with q have "path_exists fs q" by (simp add: path_exists_def node_at_write)
    with assms(1) q have d: "is_dir fs (parent q)" by (simp add: wf_fs_iff)
    with assms(2) have "parent q \<noteq> p" by auto
    with d show ?thesis by (simp add: is_dir_def node_at_write)
  qed
qed

lemma wf_write_dir:
  assumes "wf_fs fs" "p \<noteq> []" "is_dir fs (parent p)"
  shows "wf_fs (write_node fs p Dir)"
  unfolding wf_fs_iff
proof (intro allI impI)
  fix q assume q: "path_exists (write_node fs p Dir) q \<and> q \<noteq> []"
  show "is_dir (write_node fs p Dir) (parent q)"
  proof (cases "q = p")
    case True
    with assms(3) show ?thesis by (simp add: is_dir_def node_at_write)
  next
    case False
    with q have "path_exists fs q" by (simp add: path_exists_def node_at_write)
    with assms(1) q have d: "is_dir fs (parent q)" by (simp add: wf_fs_iff)
    then show ?thesis by (simp add: is_dir_def node_at_write)
  qed
qed

lemma os_mkdir_preserved:
  assumes "os_mkdir fs p = (fs', r)"
  shows "preserved fs fs'" and "wf_fs fs \<Longrightarrow> wf_fs fs'"
  using assms
  by (auto simp: os_mkdir_def preserved_refl preserved_write_new wf_write_dir split: if_splits)

lemma makedirs_preserved:
  "makedirs fs p = (fs', r) \<Longrightarrow> preserved fs fs' \<and> (wf_fs fs \<longrightarrow> wf_fs fs')"
proof (induction fs p arbitrary: fs' r rule: makedirs.induct)
  case (1 fs p)
  show ?case
  proof (cases "p \<noteq> [] \<and> \<not> path_exists fs (parent p)")
    case True
    obtain fs1 r1 where m: "makedirs fs (parent p) = (fs1, r1)" by (cases "makedirs fs (parent p)")
    from "1.IH"[OF True m] have ih: "preserved fs fs1" "wf_fs fs \<longrightarrow> wf_fs fs1" by auto
    show ?thesis
    proof (cases "r1 = None \<or> r1 = Some FileExistsError")
      case True
      with \<open>p \<noteq> [] \<and> \<not> path_exists fs (parent p)\<close> m "1.prems"
      have "os_mkdir fs1 p = (fs', r)"
        by (subst (asm) makedirs.simps) (auto split: if_splits)
      from os_mkdir_preserved[OF this] ih show ?thesis
        by (auto intro: preserved_trans)
    next
      case False
      with \<open>p \<noteq> [] \<and> \<not> path_exists fs (parent p)\<close> m "1.prems"
      have "fs' = fs1"
        by (subst (asm) makedirs.simps) (auto split: if_splits)
      with ih show ?thesis by simp
    qed
  next
    case False
    with "1.prems" have "os_mkdir fs p = (fs', r)"
      by (subst (asm) makedirs.simps) (auto split: if_splits)
    from os_mkdir_preserved[OF this] show ?thesis by auto
  qed
qed

lemma for_each_invariant:
  assumes "for_each body xs s = (s', r)"
    and "P s"
    and "\<And>x t t' q. x \<in> set xs \<Longrightarrow> P t \<Longrightarrow> body x t = (t', q) \<Longrightarrow> P t'"
  shows "P s'"
  using assms
proof (induction xs arbitrary: s)
  case Nil
  then show ?case by simp
next
  case (Cons x xs)
  obtain t q where b: "body x s = (t, q)" by (cases "body x s")
  have Pt: "P t" using Cons.prems(3)[of x s t q] Cons.prems(2) b by simp
  show ?case
  proof (cases q)
    case None
    with b Cons.prems(1) have "for_each body xs t = (s', r)" by simp
    then show ?thesis
      by (rule Cons.IH[OF _ Pt]) (rule Cons.prems(3), auto)
  next
    case (Some e)
    with b Cons.prems(1) have "s' = t" by simp
    with Pt show ?thesis by simp
  qed
qed

lemma wf_prefix_exists:
  assumes "wf_fs fs" "path_exists fs (q @ r)"
  shows "path_exists fs q"
  using assms(2)
proof (induction r rule: rev_induct)
  case Nil
  then show ?case by simp
next
  case (snoc x xs)
  from assms(1) snoc.prems have "is_dir fs (parent (q @ xs @ [x]))"
    by (simp add: wf_fs_iff)
  then have "path_exists fs (q @ xs)"
    by (simp add: parent_def is_dir_def path_exists_def butlast_append)
  then show ?case by (rule snoc.IH)
qed

lemma wf_fresh_below:
  assumes "wf_fs fs" "\<not> path_exists fs dst" "node_at fs p = Some n"
  shows "\<not> prefix dst p"
proof
  assume "prefix dst p"
  then obtain r where "p = dst @ r" by (auto simp: prefix_def)
  with assms(3) have "path_exists fs (dst @ r)" by (simp add: path_exists_def)
  with assms(1) have "path_exists fs dst" by (rule wf_prefix_exists)
  with assms(2) show False by simp
qed

lemma kept_outside_refl: "kept_outside dst fs fs"
  by (simp add: kept_outside_def)

lemma kept_outside_trans:
  "kept_outside dst a b \<Longrightarrow> kept_outside dst b c \<Longrightarrow> kept_outside dst a c"
  by (simp add: kept_outside_def)

lemma preserved_kept_outside: "preserved a b \<Longrightarrow> kept_outside dst a b"
  by (simp add: kept_outside_def preserved_def)

lemma kept_outside_deeper: "kept_outside (dst @ r) a b \<Longrightarrow> kept_outside dst a b"
  unfolding kept_outside_def
proof (intro allI impI)
  fix p n assume h: "\<forall>p n. node_at a p = Some n \<and> \<not> prefix (dst @ r) p \<longrightarrow> node_at b p = Some n"
    and "node_at a p = Some n \<and> \<not> prefix dst p"
  moreover from this have "\<not> prefix (dst @ r) p" using append_prefixD by blast
  ultimately show "node_at b p = Some n" by blast
qed

lemma copy2_wf:
  assumes "copy2 fs src dst = (fs', r)" "wf_fs fs"
  shows "wf_fs fs'"
  using assms
  by (auto simp: copy2_def Let_def open_w_def wf_write_file split: if_splits option.splits node.splits)

lemma copy2_kept_outside:
  assumes "copy2 fs src dst = (fs', r)"
  shows "kept_outside dst fs fs'"
  using assms
  by (auto simp: copy2_def Let_def kept_outside_def node_at_write
           split: if_splits option.splits node.splits)

lemma copy2_preserved:
  assumes "copy2 fs src dst = (fs', r)" "\<not> path_exists fs dst"
  shows "preserved fs fs'"
  using assms
  by (auto simp: copy2_def Let_def preserved_def node_at_write path_exists_def is_dir_def
           split: if_splits option.splits node.splits)

lemma copytree_frame:
  "copytree d fs src dst = (fs', r) \<Longrightarrow>
     kept_outside dst fs fs' \<and> (wf_fs fs \<longrightarrow> wf_fs fs')"
proof (induction d arbitrary: fs src dst fs' r)
  case 0
  then show ?case by (simp add: kept_outside_refl)
next
  case (Suc d)
  show ?case
  proof (cases "is_dir fs src")
    case False
    with Suc.prems show ?thesis by (simp add: kept_outside_refl)
  next
    case True
    obtain fs1 r1 where mk: "makedirs fs dst = (fs1, r1)" by (cases "makedirs fs dst")
    from makedirs_preserved[OF mk]
    have p1: "kept_outside dst fs fs1" "wf_fs fs \<longrightarrow> wf_fs fs1"
      by (auto intro: preserved_kept_outside)
    show ?thesis
    proof (cases r1)
      case (Some e)
      with True mk Suc.prems have "fs' = fs1" by simp
      with p1 show ?thesis by simp
    next
      case None
      let ?body = "\<lambda>(n, isd) (fs2, errs).
                   case (if isd then copytree d fs2 (src @ [n]) (dst @ [n])
                         else copy2 fs2 (src @ [n]) (dst @ [n])) of
                     (fs3, None) \<Rightarrow> ((fs3, errs), None)
                   | (fs3, Some e) \<Rightarrow>
                       if is_OSError e then ((fs3, errs @ [e]), None)
                       else ((fs3, errs), Some e)"
      let ?entries = "map (\<lambda>n. (n, is_dir fs (src @ [n]))) (os_listdir fs src)"
      obtain fs4 errs r4 where fe: "for_each ?body ?entries (fs1, []) = ((fs4, errs), r4)"
        by (cases "for_each ?body ?entries (fs1, [])") auto
      have eq: "copytree (Suc d) fs src dst =
          (case for_each ?body ?entries (fs1, []) of
               ((fs4, errs), Some e) \<Rightarrow> (fs4, Some e)
             | ((fs4, errs), None) \<Rightarrow>
                 if errs \<noteq> [] then (fs4, Some Shutil_Error) else (fs4, None))"
        using True mk None by (simp add: Let_def)
      have "fs' = fs4" using Suc.prems unfolding eq fe
        by (cases r4) (auto split: if_splits)
      let ?P = "\<lambda>s. kept_outside dst fs (fst s) \<and> (wf_fs fs \<longrightarrow> wf_fs (fst s))"
      have "?P (fs4, errs)"
      proof (rule for_each_invariant[where P = ?P, OF fe])
        show "?P (fs1, [])" using p1 by simp
      next
        fix x t t' q
        assume P: "?P t" and b: "?body x t = (t', q)"
        obtain n isd where x: "x = (n, isd)" by (cases x)
        obtain fs2 es where t: "t = (fs2, es)" by (cases t)
        obtain fs3 r3 where
          st: "(if isd then copytree d fs2 (src @ [n]) (dst @ [n])
                else copy2 fs2 (src @ [n]) (dst @ [n])) = (fs3, r3)"
          by (cases "(if isd then copytree d fs2 (src @ [n]) (dst @ [n])
                else copy2 fs2 (src @ [n]) (dst @ [n]))") auto
        from b have "(case (fs3, r3) of
                     (fs3, None) \<Rightarrow> ((fs3, es), None)
                   | (fs3, Some e) \<Rightarrow>
                       if is_OSError e then ((fs3, es @ [e]), None)
                       else ((fs3, es), Some e)) = (t', q)"
          unfolding x t st[symmetric] by simp
        then have t': "fst t' = fs3"
          by (cases r3) (auto split: if_splits)
        have "kept_outside (dst @ [n]) fs2 fs3 \<and> (wf_fs fs2 \<longrightarrow> wf_fs fs3)"
        proof (cases isd)
          case True
          with st show ?thesis using Suc.IH by simp
        next
          case False
          with st show ?thesis using copy2_kept_outside copy2_wf by auto
        qed
        then have "kept_outside dst fs2 fs3" "wf_fs fs2 \<longrightarrow> wf_fs fs3"
          by (auto intro: kept_outside_deeper)
        with P t t' show "?P t'"
          by (auto intro: kept_outside_trans)
      qed
      with \<open>fs' = fs4\<close> show ?thesis by simp
    qed
  qed
qed

lemma copytree_preserved:
  assumes "copytree d fs src dst = (fs', r)" "wf_fs fs" "\<not> path_exists fs dst"
  shows "preserved fs fs'" and "wf_fs fs'"
proof -
  from copytree_frame[OF assms(1)] assms(2)
  have k: "kept_outside dst fs fs'" and "wf_fs fs'" by auto
  then show "wf_fs fs'" by simp
  show "preserved fs fs'"
    unfolding preserved_def
  proof (intro allI impI)
    fix p n assume "node_at fs p = Some n"
    moreover from this have "\<not> prefix dst p" using wf_fresh_below[OF assms(2,3)] by simp
    ultimately show "node_at fs' p = Some n" using k by (simp add: kept_outside_def)
  qed
qed

lemma suffix_loop_free: "\<not> path_exists fs (suffix_loop fs dest_dir b e dest_item c)"
proof (induction fs dest_dir b e dest_item c rule: suffix_loop.induct)
  case (1 fs dest_dir base_name extension dest_item counter)
  then show ?case
    by (subst suffix_loop.simps) simp
qed

lemma merge_step_preserved:
  assumes IH: "\<And>fs src dst fs' r. merge_directories d fs src dst = (fs', r) \<Longrightarrow> wf_fs fs
             \<Longrightarrow> preserved fs fs' \<and> wf_fs fs'"
    and wf: "wf_fs fs1"
    and st: "(let dest_item = dest_dir @ [path_name src_item] in
               if is_dir fs1 src_item then
                 (if path_exists fs1 dest_item
                  then merge_directories d fs1 src_item dest_item
                  else copytree d fs1 src_item dest_item)
               else
                 copy2 fs1 src_item
                   (if path_exists fs1 dest_item
                    then suffix_loop fs1 dest_dir (stem_of (path_name dest_item))
                           (suffix_of (path_name dest_item)) dest_item 1
                    else dest_item)) = (fs2, q)"
  shows "preserved fs1 fs2 \<and> wf_fs fs2"
proof -
  let ?di = "dest_dir @ [path_name src_item]"
  show ?thesis
  proof (cases "is_dir fs1 src_item")
    case True
    show ?thesis
    proof (cases "path_exists fs1 ?di")
      case ex: True
      with True st have "merge_directories d fs1 src_item ?di = (fs2, q)" by (simp add: Let_def)
      from IH[OF this wf] show ?thesis .
    next
      case nex: False
      with True st have "copytree d fs1 src_item ?di = (fs2, q)" by (simp add: Let_def)
      from copytree_preserved[OF this wf nex] show ?thesis by simp
    qed
  next
    case False
    let ?t = "(if path_exists fs1 ?di
                    then suffix_loop fs1 dest_dir (stem_of (path_name ?di))
                           (suffix_of (path_name ?di)) ?di 1
                    else ?di)"
    from False st have c: "copy2 fs1 src_item ?t = (fs2, q)" by (simp add: Let_def)
    have "\<not> path_exists fs1 ?t" by (simp add: suffix_loop_free)
    from copy2_preserved[OF c this] copy2_wf[OF c wf] show ?thesis by simp
  qed
qed

lemma merge_directories_preserved:
  "merge_directories d fs src dst = (fs', r) \<Longrightarrow> wf_fs fs \<Longrightarrow> preserved fs fs' \<and> wf_fs fs'"
proof (induction d arbitrary: fs src dst fs' r)
  case 0
  then show ?case by (simp add: preserved_refl)
next
  case (Suc d)
  show ?case
  proof (cases "iterdir fs src")
    case (Inl e)
    with Suc.prems show ?thesis by (simp add: preserved_refl)
  next
    case (Inr items)
    let ?body = "\<lambda>src_item fs1.
               let dest_item = dst @ [path_name src_item] in
               if is_dir fs1 src_item then
                 (if path_exists fs1 dest_item
                  then merge_directories d fs1 src_item dest_item
                  else copytree d fs1 src_item dest_item)
               else
                 copy2 fs1 src_item
                   (if path_exists fs1 dest_item
                    then suffix_loop fs1 dst (stem_of (path_name dest_item))
                           (suffix_of (path_name dest_item)) dest_item 1
                    else dest_item)"
    from Inr Suc.prems(1) have fe: "for_each ?body items fs = (fs', r)" by simp
    show ?thesis
    proof (rule for_each_invariant[where P = "\<lambda>s. preserved fs s \<and> wf_fs s", OF fe])
      show "preserved fs fs \<and> wf_fs fs" using Suc.prems(2) by (simp add: preserved_refl)
    next
      fix x t t' q
      assume P: "preserved fs t \<and> wf_fs t" and b: "?body x t = (t', q)"
      have "preserved t t' \<and> wf_fs t'"
      proof (rule merge_step_preserved[OF _ _ b])
        show "\<And>fs src dst fs' r. merge_directories d fs src dst = (fs', r) \<Longrightarrow> wf_fs fs
             \<Longrightarrow> preserved fs fs' \<and> wf_fs fs'"
          by (rule Suc.IH)
        show "wf_fs t" using P by simp
      qed
      with P show "preserved fs t' \<and> wf_fs t'" by (auto intro: preserved_trans)
    qed
  qed
qed

lemma import_years_preserved:
  assumes "import_years depth fs organized_dir = (fs', r)" "wf_fs fs"
  shows "preserved fs fs' \<and> wf_fs fs'"
proof (cases "iterdir fs organized_dir")
  case (Inl e)
  with assms show ?thesis by (simp add: import_years_def preserved_refl)
next
  case (Inr year_dirs)
  let ?body = "\<lambda>year_dir fs1.
               if is_dir fs1 year_dir \<and> isdigit (path_name year_dir) then
                 (let dest_year_dir = final_photo_dir @ [path_name year_dir] in
                  if path_exists fs1 dest_year_dir
                  then merge_directories depth fs1 year_dir dest_year_dir
                  else copytree depth fs1 year_dir dest_year_dir)
               else (fs1, None)"
  from Inr assms(1) have fe: "for_each ?body year_dirs fs = (fs', r)"
    by (simp add: import_years_def)
  show ?thesis
  proof (rule for_each_invariant[where P = "\<lambda>s. preserved fs s \<and> wf_fs s", OF fe])
    show "preserved fs fs \<and> wf_fs fs" using assms(2) by (simp add: preserved_refl)
  next
    fix x t t' q
    assume P: "preserved fs t \<and> wf_fs t" and b: "?body x t = (t', q)"
    have "preserved t t' \<and> wf_fs t'"
    proof (cases "is_dir t x \<and> isdigit (path_name x)")
      case False
      with b P show ?thesis by (auto simp: preserved_refl)
    next
      case True
      show ?thesis
      proof (cases "path_exists t (final_photo_dir @ [path_name x])")
        case ex: True
        with True b have "merge_directories depth t x (final_photo_dir @ [path_name x]) = (t', q)"
          by (simp add: Let_def)
        from merge_directories_preserved[OF this] P show ?thesis by simp
      next
        case nex: False
        with True b have "copytree depth t x (final_photo_dir @ [path_name x]) = (t', q)"
          by (simp add: Let_def)
        from copytree_preserved[OF this _ nex] P show ?thesis by simp
      qed
    qed
    with P show "preserved fs t' \<and> wf_fs t'" by (auto intro: preserved_trans)
  qed
qed

lemma import_try_preserved:
  assumes "import_try ext depth fs organized_dir = (fs', r)" "wf_fs fs"
  shows "preserved fs fs' \<and> wf_fs fs'"
proof -
  obtain fs1 r1 where y: "import_years depth fs organized_dir = (fs1, r1)"
    by (cases "import_years depth fs organized_dir") auto
  with assms(1) have "fs' = fs1"
    by (auto simp: import_try_def split: option.splits proc.splits if_splits)
  with import_years_preserved[OF y assms(2)] show ?thesis by simp
qed

lemma import_to_darktable_preserved:
  assumes "import_to_darktable ext depth self fs = (self', fs')" "wf_fs fs"
  shows "preserved fs fs' \<and> wf_fs fs'"
proof (cases "dry_run self \<or> \<not> path_exists fs (stage_dir self @ [''organized''])")
  case True
  with assms show ?thesis
    by (auto simp: import_to_darktable_def Let_def preserved_refl split: if_splits)
next
  case False
  obtain fs1 r1 where t: "import_try ext depth fs (stage_dir self @ [''organized'']) = (fs1, r1)"
    by (cases "import_try ext depth fs (stage_dir self @ [''organized''])") auto
  with False assms(1) have "fs' = fs1"
    by (auto simp: import_to_darktable_def Let_def split: option.splits)
  with import_try_preserved[OF t assms(2)] show ?thesis by simp
qed

section \<open>The name a colliding file gets\<close>

lemma os_listdir_member:
  assumes "node_at fs (d @ [n]) = Some x"
  shows "n \<in> set (os_listdir fs d)"
proof -
  from assms have "d @ [n] \<in> set (map fst fs)"
    by (metis node_at_def map_of_eq_None_iff option.distinct(1) set_map)
  then have "last (d @ [n]) \<in> (\<lambda>p. last p) ` {p \<in> set (map fst fs). p \<noteq> [] \<and> butlast p = d}"
    by (intro imageI) simp
  then show ?thesis by (auto simp: os_listdir_def)
qed

lemma for_each_split:
  assumes "for_each body xs s = (s', None)" "x \<in> set xs"
  shows "\<exists>ys zs t t'. xs = ys @ x # zs \<and> for_each body ys s = (t, None)
            \<and> body x t = (t', None) \<and> for_each body zs t' = (s', None)"
  using assms
proof (induction xs arbitrary: s)
  case Nil
  then show ?case by simp
next
  case (Cons y xs)
  obtain t q where b: "body y s = (t, q)" by (cases "body y s")
  with Cons.prems(1) have q: "q = None" by (cases q) auto
  with b Cons.prems(1) have rest: "for_each body xs t = (s', None)" by simp
  show ?case
  proof (cases "x = y")
    case True
    have "y # xs = [] @ x # xs \<and> for_each body [] s = (s, None)
            \<and> body x s = (t, None) \<and> for_each body xs t = (s', None)"
      using True b q rest by simp
    then show ?thesis by blast
  next
    case False
    with Cons.prems(2) have "x \<in> set xs" by simp
    from Cons.IH[OF rest this] obtain ys zs u u' where
      "xs = ys @ x # zs" "for_each body ys t = (u, None)" "body x u = (u', None)"
      "for_each body zs u' = (s', None)" by blast
    then have "y # xs = (y # ys) @ x # zs \<and> for_each body (y # ys) s = (u, None)
            \<and> body x u = (u', None) \<and> for_each body zs u' = (s', None)"
      using b q by simp
    then show ?thesis by blast
  qed
qed

lemma suffix_loop_search:
  assumes "path_exists fs dest_item"
  shows "\<exists>k\<ge>c. suffix_loop fs dd b e dest_item c = dd @ [b @ ''_'' @ str_nat k @ e]
           \<and> \<not> path_exists fs (dd @ [b @ ''_'' @ str_nat k @ e])
           \<and> (\<forall>j. c \<le> j \<and> j < k \<longrightarrow> path_exists fs (dd @ [b @ ''_'' @ str_nat j @ e]))"
  using assms
proof (induction fs dd b e dest_item c rule: suffix_loop.induct)
  case (1 fs dd b e dest_item c)
  let ?n = "\<lambda>k. dd @ [b @ ''_'' @ str_nat k @ e]"
  have unf: "suffix_loop fs dd b e dest_item c = suffix_loop fs dd b e (?n c) (c + 1)"
    using "1.prems" by (subst suffix_loop.simps) simp
  show ?case
  proof (cases "path_exists fs (?n c)")
    case True
    from "1.IH"[OF "1.prems" True] obtain k where
      k: "k \<ge> c + 1" "suffix_loop fs dd b e (?n c) (c + 1) = ?n k" "\<not> path_exists fs (?n k)"
         "\<forall>j. c + 1 \<le> j \<and> j < k \<longrightarrow> path_exists fs (?n j)" by blast
    have "\<forall>j. c \<le> j \<and> j < k \<longrightarrow> path_exists fs (?n j)"
    proof (intro allI impI)
      fix j assume "c \<le> j \<and> j < k"
      then have "j = c \<or> (c + 1 \<le> j \<and> j < k)" by arith
      with True k(4) show "path_exists fs (?n j)" by blast
    qed
    with k unf have "k \<ge> c \<and> suffix_loop fs dd b e dest_item c = ?n k \<and> \<not> path_exists fs (?n k)
        \<and> (\<forall>j. c \<le> j \<and> j < k \<longrightarrow> path_exists fs (?n j))" by simp
    then show ?thesis by blast
  next
    case False
    then have "suffix_loop fs dd b e (?n c) (c + 1) = ?n c"
      by (subst suffix_loop.simps) simp
    with unf False have "c \<ge> c \<and> suffix_loop fs dd b e dest_item c = ?n c \<and> \<not> path_exists fs (?n c)
        \<and> (\<forall>j. c \<le> j \<and> j < c \<longrightarrow> path_exists fs (?n j))" by auto
    then show ?thesis by blast
  qed
qed

lemma preserved_exists: "preserved a b \<Longrightarrow> path_exists a p \<Longrightarrow> path_exists b p"
  by (auto simp: preserved_def path_exists_def)

lemma copy2_new_file:
  assumes "copy2 fs src dst = (fs', None)" "\<not> path_exists fs dst" "node_at fs src = Some (File c m)"
  shows "fs' = write_node fs dst (File c m)"
  using assms
  by (auto simp: copy2_def Let_def path_exists_def is_dir_def split: if_splits option.splits)

lemma merge_loop_preserved:
  assumes fe: "for_each
            (\<lambda>src_item fs1.
               let dest_item = dest_dir @ [path_name src_item] in
               if is_dir fs1 src_item then
                 (if path_exists fs1 dest_item
                  then merge_directories d fs1 src_item dest_item
                  else copytree d fs1 src_item dest_item)
               else
                 copy2 fs1 src_item
                   (if path_exists fs1 dest_item
                    then suffix_loop fs1 dest_dir (stem_of (path_name dest_item))
                           (suffix_of (path_name dest_item)) dest_item 1
                    else dest_item))
            items s = (s', r)"
    and wf: "wf_fs s"
  shows "preserved s s' \<and> wf_fs s'"
proof (rule for_each_invariant[where P = "\<lambda>u. preserved s u \<and> wf_fs u", OF fe])
  show "preserved s s \<and> wf_fs s" using wf by (simp add: preserved_refl)
next
  fix x t t' q
  assume P: "preserved s t \<and> wf_fs t"
    and b: "(let dest_item = dest_dir @ [path_name x] in
               if is_dir t x then
                 (if path_exists t dest_item
                  then merge_directories d t x dest_item
                  else copytree d t x dest_item)
               else
                 copy2 t x
                   (if path_exists t dest_item
                    then suffix_loop t dest_dir (stem_of (path_name dest_item))
                           (suffix_of (path_name dest_item)) dest_item 1
                    else dest_item)) = (t', q)"
  have "preserved t t' \<and> wf_fs t'"
  proof (rule merge_step_preserved[OF _ _ b])
    show "\<And>fs src dst fs' r. merge_directories d fs src dst = (fs', r) \<Longrightarrow> wf_fs fs
             \<Longrightarrow> preserved fs fs' \<and> wf_fs fs'"
      by (rule merge_directories_preserved)
    show "wf_fs t" using P by simp
  qed
  with P show "preserved s t' \<and> wf_fs t'" by (auto intro: preserved_trans)
qed

section \<open>Counting the duplicates the detector reports\<close>

text \<open>
  A group that is not blank contributes the number of its lines less one, which is the
  number of its line feeds; \<open>reported_duplicates\<close> is the sum over the groups of the
  output. The counter \<^verbatim>\<open>moved\<close> grows by at most one for every line after the first
  of a group of the stripped text, so it never passes that sum.
\<close>

lemma split_from_single_length:
  "length (split_from [c] acc s) = Suc (count_list s c)"
proof (induction s arbitrary: acc)
  case Nil
  then show ?case by simp
next
  case (Cons x xs)
  then show ?case by (cases "x = c") auto
qed

lemma count_list_dropWhile_le: "count_list (dropWhile P xs) c \<le> count_list xs c"
  by (induction xs) auto

lemma count_list_strip_le: "count_list (strip s) c \<le> count_list s c"
proof -
  have "count_list (strip s) c = count_list (dropWhile is_space (rev (dropWhile is_space s))) c"
    by (simp add: strip_def)
  also have "\<dots> \<le> count_list (rev (dropWhile is_space s)) c"
    by (rule count_list_dropWhile_le)
  also have "\<dots> = count_list (dropWhile is_space s) c" by simp
  also have "\<dots> \<le> count_list s c" by (rule count_list_dropWhile_le)
  finally show ?thesis .
qed

lemma lines_strip_le:
  "length (str_split (strip g) newline) \<le> length (str_split g newline)"
  by (simp add: str_split_def newline_def split_from_single_length count_list_strip_le)

lemma quarantine_one_moved:
  "snd (quarantine_one depth self l (fs, m)) \<le> m + 1"
  by (auto simp: quarantine_one_def Let_def split: prod.splits option.splits)

lemma fold_quarantine_moved:
  "snd (fold (quarantine_one depth self) ls s) \<le> snd s + length ls"
proof (induction ls arbitrary: s)
  case Nil
  then show ?case by simp
next
  case (Cons l ls)
  obtain fs m where s: "s = (fs, m)" by (cases s)
  have "snd (fold (quarantine_one depth self) ls (quarantine_one depth self l s))
        \<le> snd (quarantine_one depth self l s) + length ls" by (rule Cons.IH)
  also have "\<dots> \<le> snd s + 1 + length ls"
    using quarantine_one_moved[of depth self l fs m] s by simp
  finally show ?case by simp
qed

lemma handle_group_moved:
  "snd (handle_group depth self grp s) \<le> snd s + group_count grp"
proof (cases "strip grp = [] \<or> length (str_split (strip grp) newline) < 2")
  case True
  then show ?thesis by (auto simp: handle_group_def Let_def)
next
  case False
  then have "snd (handle_group depth self grp s)
      = snd (fold (quarantine_one depth self) (tl (str_split (strip grp) newline)) s)"
    by (simp add: handle_group_def Let_def)
  also have "\<dots> \<le> snd s + length (tl (str_split (strip grp) newline))"
    by (rule fold_quarantine_moved)
  also have "\<dots> \<le> snd s + (length (str_split grp newline) - 1)"
    using lines_strip_le[of grp] by simp
  also have "\<dots> = snd s + group_count grp"
    using False by (simp add: group_count_def str_split_def newline_def split_from_single_length)
  finally show ?thesis .
qed

lemma fold_handle_group_moved:
  "snd (fold (handle_group depth self) gs s) \<le> snd s + sum_list (map group_count gs)"
proof (induction gs arbitrary: s)
  case Nil
  then show ?case by simp
next
  case (Cons g gs)
  have "snd (fold (handle_group depth self) gs (handle_group depth self g s))
        \<le> snd (handle_group depth self g s) + sum_list (map group_count gs)" by (rule Cons.IH)
  also have "\<dots> \<le> snd s + group_count g + sum_list (map group_count gs)"
    using handle_group_moved[of depth self g s] by simp
  finally show ?case by simp
qed

lemma total_duplicates_reported:
  "sum_list (map (\<lambda>grp. length (str_split grp newline) - 1)
       (filter (\<lambda>grp. strip grp \<noteq> []) gs)) = sum_list (map group_count gs)"
  by (induction gs)
     (auto simp: group_count_def str_split_def newline_def split_from_single_length)

lemma handle_duplicates_moved:
  "snd (handle_duplicates depth self fs out) \<le> reported_duplicates out"
  using fold_handle_group_moved[of depth self "str_split (strip out) (newline @ newline)" "(fs, 0)"]
  by (simp add: handle_duplicates_def reported_duplicates_def Let_def)

section \<open>What the quarantine moves do to the staging area\<close>

text \<open>
  \<open>dup_groups out\<close> are the duplicate groups of the detector's output with two members or
  more, as lists of paths, read as \<^verbatim>\<open>_handle_duplicates\<close> reads them; the moves of the
  script are one fold of \<open>quarantine_path\<close> over the members after the first.
\<close>

lemma split_from_absent:
  "c \<notin> set s \<Longrightarrow> split_from [c] acc s = [rev acc @ s]"
  by (induction s arbitrary: acc) auto

lemma split_from_pieces:
  "c \<notin> set acc \<Longrightarrow> piece \<in> set (split_from [c] acc s) \<Longrightarrow> c \<notin> set piece"
proof (induction s arbitrary: acc)
  case Nil
  then show ?case by simp
next
  case (Cons x xs)
  show ?case
  proof (cases "x = c")
    case True
    with Cons.prems have "piece = rev acc \<or> piece \<in> set (split_from [c] [] xs)" by simp
    then show ?thesis using Cons.prems(1) Cons.IH[of "[]"] by auto
  next
    case False
    with Cons.prems have "piece \<in> set (split_from [c] (x # acc) xs)" by simp
    with Cons.IH[of "x # acc"] Cons.prems(1) False show ?thesis by auto
  qed
qed

lemma Path_component:
  assumes "x \<in> set (Path s)"
  shows "Path x = [x]"
proof -
  from assms have x: "x \<noteq> []" "x \<noteq> ''.''" "x \<in> set (split_from ''/'' [] s)"
    by (auto simp: Path_def str_split_def)
  from split_from_pieces[of "CHR ''/''" "[]" x s] x(3) have "CHR ''/'' \<notin> set x" by simp
  then have "str_split x ''/'' = [x]"
    by (simp add: str_split_def split_from_absent)
  with x show ?thesis by (simp add: Path_def)
qed

lemma path_join_name:
  assumes "p = Path s" "p \<noteq> []"
  shows "path_join q (path_name p) = q @ [path_name p]"
proof -
  from assms have "last p \<in> set (Path s)" by simp
  then have "Path (last p) = [last p]" by (rule Path_component)
  with assms(2) show ?thesis by (simp add: path_join_def path_name_def)
qed

text \<open>The move of one regular file into a directory where its name is free or a file.\<close>

lemma shutil_move_file:
  assumes "node_at fs src = Some (File c m)" "\<not> is_dir fs dst" "dst \<noteq> []"
    "is_dir fs (parent dst)" "src \<noteq> dst"
  shows "shutil_move depth fs src dst = (write_node (remove_node fs src) dst (File c m), None)"
  using assms by (simp add: shutil_move_def os_rename_def Let_def)

lemma quarantine_one_path:
  "quarantine_one depth self l = quarantine_path depth (stage_dir self @ [''duplicates'']) (Path (strip l))"
  by (auto simp: quarantine_one_def quarantine_path_def Let_def fun_eq_iff)

lemma handle_group_lines:
  "handle_group depth self grp s = fold (quarantine_one depth self) (tl (group_lines grp)) s"
  by (simp add: handle_group_def group_lines_def Let_def)

lemma fold_handle_group_concat:
  "fold (handle_group depth self) gs s
     = fold (quarantine_one depth self) (concat (map (\<lambda>g. tl (group_lines g)) gs)) s"
  by (induction gs arbitrary: s) (simp_all add: handle_group_lines)

lemma fold_quarantine_paths:
  "fold (quarantine_one depth self) ls s
     = fold (quarantine_path depth (stage_dir self @ [''duplicates''])) (map (\<lambda>l. Path (strip l)) ls) s"
  by (induction ls arbitrary: s) (simp_all add: quarantine_one_path)

lemma quarantine_fold:
  assumes "is_dir fs q" "distinct ps" "\<forall>p\<in>set ps. movable q fs p"
  shows "\<exists>fs'. fold (quarantine_path depth q) ps (fs, k) = (fs', k + length ps)
            \<and> quarantined q fs ps fs'"
  using assms(2,3)
proof (induction ps rule: rev_induct)
  case Nil
  show ?case by (simp add: quarantined_def)
next
  case (snoc x ps)
  let ?D = "\<lambda>p. q @ [path_name p]"
  from snoc obtain fs1 where
    f1: "fold (quarantine_path depth q) ps (fs, k) = (fs1, k + length ps)"
    and q1: "quarantined q fs ps fs1" by auto
  from snoc.prems have mx: "movable q fs x" and xps: "x \<notin> set ps"
    and mps: "\<forall>p\<in>set ps. movable q fs p" by auto
  from mx obtain c m where xf: "node_at fs x = Some (File c m)"
    by (auto simp: movable_def is_file_def split: option.splits node.splits)
  have pre: "\<And>p. prefix q (?D p)" by simp
  from mx have npx: "\<not> prefix q x" by (simp add: movable_def)
  have xD: "\<And>p. x \<noteq> ?D p" using npx pre by metis
  have pD: "\<And>p p'. p \<in> set ps \<Longrightarrow> p \<noteq> ?D p'"
    using mps pre unfolding movable_def by metis
  have "x \<notin> ?D ` set ps" using xD by auto
  with q1 xps have x1: "node_at fs1 x = Some (File c m)"
    using xf by (simp add: quarantined_def)
  have d1: "\<And>y. is_dir fs1 y = is_dir fs y" using q1 by (simp add: quarantined_def)
  have nd: "\<not> is_dir fs1 (?D x)" using mx d1 by (simp add: movable_def)
  have pd: "is_dir fs1 (parent (?D x))" using assms(1) d1 by (simp add: parent_def)
  let ?fs2 = "write_node (remove_node fs1 x) (?D x) (File c m)"
  have mv: "shutil_move depth fs1 x (?D x) = (?fs2, None)"
    using shutil_move_file[OF x1 nd _ pd] xD by simp
  have pj: "path_join q (path_name x) = ?D x" using mx by (simp add: movable_def)
  have ex: "path_exists fs1 x" using x1 by (simp add: path_exists_def)
  have step: "quarantine_path depth q x (fs1, k + length ps) = (?fs2, k + length ps + 1)"
    using ex mv pj by (simp add: quarantine_path_def)
  have n2: "\<And>y. node_at ?fs2 y
        = (if y = ?D x then Some (File c m) else if y = x then None else node_at fs1 y)"
    by (simp add: node_at_write node_at_remove)
  have i1: "\<forall>y. y \<notin> set (ps @ [x]) \<and> y \<notin> ?D ` set (ps @ [x]) \<longrightarrow> node_at ?fs2 y = node_at fs y"
    using q1 by (auto simp: n2 quarantined_def)
  have i2: "\<forall>p\<in>set (ps @ [x]). node_at ?fs2 p = None"
    using q1 xD pD by (auto simp: n2 quarantined_def)
  have i3: "\<forall>p\<in>set (ps @ [x]). is_file ?fs2 (?D p)"
  proof
    fix p assume "p \<in> set (ps @ [x])"
    then consider "?D p = ?D x" | "?D p \<noteq> ?D x" "p \<in> set ps" by auto
    then show "is_file ?fs2 (?D p)"
    proof cases
      case 1
      then show ?thesis by (simp add: is_file_def n2)
    next
      case 2
      with q1 have "is_file fs1 (?D p)" by (simp add: quarantined_def)
      moreover have "?D p \<noteq> x" using xD by metis
      ultimately show ?thesis using 2 by (simp add: is_file_def n2)
    qed
  qed
  have i4: "\<forall>y. is_dir ?fs2 y = is_dir fs y"
  proof
    fix y
    show "is_dir ?fs2 y = is_dir fs y"
      using d1[of y] nd x1 by (auto simp: is_dir_def n2)
  qed
  have i6: "inj_on path_name (set (ps @ [x])) \<longrightarrow>
              (\<forall>p\<in>set (ps @ [x]). node_at ?fs2 (?D p) = node_at fs p)"
  proof (intro impI ballI)
    fix p assume inj: "inj_on path_name (set (ps @ [x]))" and p: "p \<in> set (ps @ [x])"
    show "node_at ?fs2 (?D p) = node_at fs p"
    proof (cases "p = x")
      case True
      then show ?thesis using xf by (simp add: n2)
    next
      case False
      with p have pp: "p \<in> set ps" by simp
      from inj have "inj_on path_name (set ps)" by (auto simp: inj_on_def)
      with q1 pp have a: "node_at fs1 (?D p) = node_at fs p" by (simp add: quarantined_def)
      from inj False p have "path_name p \<noteq> path_name x" by (auto simp: inj_on_def)
      then have "?D p \<noteq> ?D x" by simp
      moreover have "?D p \<noteq> x" using xD by metis
      ultimately show ?thesis using a by (simp add: n2)
    qed
  qed
  have "fold (quarantine_path depth q) (ps @ [x]) (fs, k) = (?fs2, k + length (ps @ [x]))"
    using f1 step by simp
  moreover have "quarantined q fs (ps @ [x]) ?fs2"
    unfolding quarantined_def using i1 i2 i3 i4 i6 by blast
  ultimately show ?case by blast
qed

lemma quarantine_fold_absent:
  "\<forall>p\<in>set ps. \<not> path_exists fs p \<Longrightarrow> fold (quarantine_path depth q) ps (fs, k) = (fs, k)"
  by (induction ps) (auto simp: quarantine_path_def)

lemma map_tl_groups:
  "map f (concat (map (\<lambda>g. tl (group_lines g)) gs))
     = concat (map tl (map (map f) (filter (\<lambda>ls. ls \<noteq> []) (map group_lines gs))))"
  by (induction gs) (auto simp: map_tl)

lemma handle_duplicates_fold:
  "handle_duplicates depth self fs out
     = fold (quarantine_path depth (stage_dir self @ [''duplicates'']))
         (concat (map tl (dup_groups out))) (fs, 0)"
  by (simp add: handle_duplicates_def Let_def fold_handle_group_concat fold_quarantine_paths
        map_tl_groups dup_groups_def)

lemma distinct_concat_tl:
  "distinct (concat xss) \<Longrightarrow> distinct (concat (map tl xss))"
proof (induction xss)
  case Nil
  then show ?case by simp
next
  case (Cons x xss)
  have a: "set (tl x) \<subseteq> set x" by (cases x) auto
  have b: "set (concat (map tl xss)) \<subseteq> set (concat xss)"
  proof
    fix y assume "y \<in> set (concat (map tl xss))"
    then obtain z where "z \<in> set xss" "y \<in> set (tl z)" by auto
    moreover have "set (tl z) \<subseteq> set z" by (cases z) auto
    ultimately show "y \<in> set (concat xss)" by auto
  qed
  from Cons.prems have "distinct x" "distinct (concat xss)" "set x \<inter> set (concat xss) = {}"
    by auto
  with Cons.IH a b show ?case by (auto simp: distinct_tl)
qed

lemma set_concat_tl: "set (concat (map tl xss)) \<subseteq> set (concat xss)"
proof
  fix y assume "y \<in> set (concat (map tl xss))"
  then obtain z where "z \<in> set xss" "y \<in> set (tl z)" by auto
  moreover have "set (tl z) \<subseteq> set z" by (cases z) auto
  ultimately show "y \<in> set (concat xss)" by auto
qed

lemma hd_not_in_tls:
  "distinct (concat xss) \<Longrightarrow> g \<in> set xss \<Longrightarrow> g \<noteq> [] \<Longrightarrow> hd g \<notin> set (concat (map tl xss))"
proof (induction xss)
  case Nil
  then show ?case by simp
next
  case (Cons x xss)
  from Cons.prems(1) have d: "distinct x" "distinct (concat xss)" "set x \<inter> set (concat xss) = {}"
    by auto
  show ?case
  proof (cases "g = x")
    case True
    with Cons.prems(3) obtain a r where x: "x = a # r" by (cases x) auto
    with d(1) have "a \<notin> set r" by simp
    moreover have "a \<notin> set (concat (map tl xss))"
      using d(3) x set_concat_tl[of xss] by auto
    ultimately show ?thesis using True x by simp
  next
    case False
    with Cons.prems(2) have gin: "g \<in> set xss" by simp
    from Cons.IH[OF d(2) gin Cons.prems(3)] have "hd g \<notin> set (concat (map tl xss))" .
    moreover have "hd g \<in> set (concat xss)" using gin Cons.prems(3) by (auto intro: hd_in_set)
    then have "hd g \<notin> set x" using d(3) by auto
    then have "hd g \<notin> set (tl x)" by (cases x) auto
    ultimately show ?thesis by simp
  qed
qed

lemma dup_groups_member:
  assumes "g \<in> set (dup_groups out)"
  shows "g \<noteq> []" and "\<forall>p\<in>set g. \<exists>s. p = Path s"
  using assms by (auto simp: dup_groups_def)

lemma wf_root_dir:
  assumes "wf_fs fs" "path_exists fs p" "p \<noteq> []"
  shows "is_dir fs []"
proof -
  from assms(3) obtain a r where p: "p = [a] @ r" by (cases p) auto
  with assms(1,2) have "path_exists fs [a]" using wf_prefix_exists by blast
  with assms(1) have "is_dir fs (parent [a])" by (simp add: wf_fs_iff)
  then show ?thesis by (simp add: parent_def)
qed

section \<open>Reading a capture time back\<close>

text \<open>
  A valid date written in the format is read back by \<open>strptime\<close>: every field matches
  with its first fitting alternative, and the first match of the whole format is the date.
\<close>

lemma small_cases: "n < 10 \<Longrightarrow> n = 0 \<or> n = 1 \<or> n = 2 \<or> n = 3 \<or> n = 4 \<or> n = 5 \<or> n = 6
    \<or> n = 7 \<or> n = 8 \<or> n = (9::nat)"
  by arith

lemma digit_char_facts:
  assumes "n < 10"
  shows "is_digit (digit_char n)" and "digit_val (digit_char n) = n"
    and "\<not> is_space (digit_char n)" and "digit_char n \<noteq> CHR '':''"
  using small_cases[OF assms]
  by (auto simp: digit_char_def is_digit_def digit_val_def is_space_def)

lemma str_nat_1: "n < 10 \<Longrightarrow> str_nat n = [digit_char n]"
  by (subst str_nat.simps) simp

lemma str_nat_2: "10 \<le> n \<Longrightarrow> n < 100 \<Longrightarrow> str_nat n = [digit_char (n div 10), digit_char (n mod 10)]"
  by (subst str_nat.simps) (simp add: str_nat_1)

lemma pad2_digits: "n < 100 \<Longrightarrow> pad2 n = [digit_char (n div 10), digit_char (n mod 10)]"
  by (cases "n < 10") (simp_all add: pad2_def str_nat_1 str_nat_2 digit_char_def)

lemma alt2_hit:
  assumes "n < 100" "ok (n div 10) (n mod 10)"
  shows "alt2 ok (digit_char (n div 10) # digit_char (n mod 10) # r) = [(n, r)]"
proof -
  have a: "n div 10 < 10" "n mod 10 < 10" using assms(1) by auto
  show ?thesis using assms(2) digit_char_facts[OF a(1)] digit_char_facts[OF a(2)]
    by (simp add: alt2_def)
qed

lemma alt2_miss:
  assumes "n < 100" "\<not> ok (n div 10) (n mod 10)"
  shows "alt2 ok (digit_char (n div 10) # digit_char (n mod 10) # r) = []"
proof -
  have a: "n div 10 < 10" "n mod 10 < 10" using assms(1) by auto
  show ?thesis using assms(2) digit_char_facts[OF a(1)] digit_char_facts[OF a(2)]
    by (simp add: alt2_def)
qed

lemma field_Y_hit:
  assumes "n \<le> 9999"
  shows "field_Y (pad4 n @ r) = [(n, r)]"
proof -
  define H L where "H = n div 100" and "L = n mod 100"
  define a b c d where "a = H div 10" and "b = H mod 10" and "c = L div 10" and "d = L mod 10"
  have lt: "a < 10" "b < 10" "c < 10" "d < 10"
    using assms by (auto simp: a_def b_def c_def d_def H_def L_def)
  have hl: "100 * H + L = n" by (simp add: H_def L_def)
  have h: "10 * a + b = H" by (simp add: a_def b_def)
  have l: "10 * c + d = L" by (simp add: c_def d_def)
  from hl h l have e: "1000 * a + 100 * b + 10 * c + d = n" by linarith
  have p: "pad4 n = [digit_char a, digit_char b, digit_char c, digit_char d]"
    by (simp add: pad4_def a_def b_def c_def d_def H_def L_def)
  show ?thesis
    unfolding p
    using e digit_char_facts(1,2)[OF lt(1)] digit_char_facts(1,2)[OF lt(2)]
      digit_char_facts(1,2)[OF lt(3)] digit_char_facts(1,2)[OF lt(4)]
    by (simp add: field_Y_def)
qed

lemma field_m_hit:
  assumes "1 \<le> n" "n \<le> 12"
  shows "\<exists>xs. field_m (pad2 n @ r) = (n, r) # xs"
proof (cases "n < 10")
  case True
  then have "n div 10 = 0" "n mod 10 = n" by auto
  with assms show ?thesis
    using alt2_miss[of n "\<lambda>a b. a = 1 \<and> b \<le> 2" r] alt2_hit[of n "\<lambda>a b. a = 0 \<and> 1 \<le> b" r]
    by (simp add: field_m_def pad2_digits)
next
  case False
  with assms have "n div 10 = 1" "n mod 10 \<le> 2" by presburger+
  with assms show ?thesis
    using alt2_hit[of n "\<lambda>a b. a = 1 \<and> b \<le> 2" r]
    by (simp add: field_m_def pad2_digits)
qed

lemma field_d_hit:
  assumes "1 \<le> n" "n \<le> 31"
  shows "\<exists>xs. field_d (pad2 n @ r) = (n, r) # xs"
proof -
  consider "n < 10" | "10 \<le> n" "n < 30" | "30 \<le> n" by linarith
  then show ?thesis
  proof cases
    case 1
    then have "n div 10 = 0" "n mod 10 = n" by auto
    with assms show ?thesis
      using alt2_miss[of n "\<lambda>a b. a = 3 \<and> b \<le> 1" r]
        alt2_miss[of n "\<lambda>a b. 1 \<le> a \<and> a \<le> 2" r]
        alt2_hit[of n "\<lambda>a b. a = 0 \<and> 1 \<le> b" r]
      by (simp add: field_d_def pad2_digits)
  next
    case 2
    then have "1 \<le> n div 10" "n div 10 \<le> 2" by auto
    with assms show ?thesis
      using alt2_miss[of n "\<lambda>a b. a = 3 \<and> b \<le> 1" r]
        alt2_hit[of n "\<lambda>a b. 1 \<le> a \<and> a \<le> 2" r]
      by (simp add: field_d_def pad2_digits)
  next
    case 3
    with assms have "n div 10 = 3" "n mod 10 \<le> 1" by presburger+
    with assms show ?thesis
      using alt2_hit[of n "\<lambda>a b. a = 3 \<and> b \<le> 1" r]
      by (simp add: field_d_def pad2_digits)
  qed
qed

lemma field_H_hit:
  assumes "n \<le> 23"
  shows "\<exists>xs. field_H (pad2 n @ r) = (n, r) # xs"
proof (cases "n < 20")
  case True
  then have "n div 10 \<le> 1" by auto
  with assms show ?thesis
    using alt2_miss[of n "\<lambda>a b. a = 2 \<and> b \<le> 3" r] alt2_hit[of n "\<lambda>a b. a \<le> 1" r]
    by (simp add: field_H_def pad2_digits)
next
  case False
  with assms have "n div 10 = 2" "n mod 10 \<le> 3" by presburger+
  with assms show ?thesis
    using alt2_hit[of n "\<lambda>a b. a = 2 \<and> b \<le> 3" r]
    by (simp add: field_H_def pad2_digits)
qed

lemma field_M_hit:
  assumes "n \<le> 59"
  shows "\<exists>xs. field_M (pad2 n @ r) = (n, r) # xs"
proof -
  from assms have "n div 10 \<le> 5" by auto
  with assms show ?thesis
    using alt2_hit[of n "\<lambda>a b. a \<le> 5" r]
    by (simp add: field_M_def pad2_digits)
qed

lemma field_S_hit:
  assumes "n \<le> 59"
  shows "\<exists>xs. field_S (pad2 n @ r) = (n, r) # xs"
proof -
  from assms have "n div 10 \<le> 5" by auto
  with assms show ?thesis
    using alt2_miss[of n "\<lambda>a b. a = 6 \<and> b \<le> 1" r] alt2_hit[of n "\<lambda>a b. a \<le> 5" r]
    by (simp add: field_S_def pad2_digits)
qed

lemma spaces_one:
  assumes "n < 100"
  shows "spaces (CHR '' '' # pad2 n @ r) = [pad2 n @ r]"
proof -
  have "n div 10 < 10" using assms by auto
  from digit_char_facts(3)[OF this] show ?thesis
    using assms by (simp add: spaces_def pad2_digits is_space_def)
qed

lemma days_in_month_le: "days_in_month y m \<le> 31"
  by (simp add: days_in_month_def)

lemma format_matches_strftime:
  assumes "valid_datetime t"
  shows "\<exists>xs. format_matches (strftime t) = (t, []) # xs"
proof -
  from assms have v: "year t \<le> 9999" "1 \<le> month t" "month t \<le> 12" "1 \<le> day t" "day t \<le> 31"
      "hour t \<le> 23" "minute t \<le> 59" "second t \<le> 59"
    using days_in_month_le[of "year t" "month t"] by (auto simp: valid_datetime_def)
  let ?r5 = "pad2 (second t)"
  let ?r4 = "pad2 (minute t) @ '':'' @ ?r5"
  let ?r3 = "pad2 (hour t) @ '':'' @ ?r4"
  let ?r2 = "pad2 (day t) @ '' '' @ ?r3"
  let ?r1 = "pad2 (month t) @ '':'' @ ?r2"
  obtain xm where m: "field_m ?r1 = (month t, '':'' @ ?r2) # xm"
    using field_m_hit[OF v(2,3), of "'':'' @ ?r2"] by auto
  obtain xd where d: "field_d ?r2 = (day t, '' '' @ ?r3) # xd"
    using field_d_hit[OF v(4,5), of "'' '' @ ?r3"] by auto
  obtain xH where H: "field_H ?r3 = (hour t, '':'' @ ?r4) # xH"
    using field_H_hit[OF v(6), of "'':'' @ ?r4"] by auto
  obtain xM where M: "field_M ?r4 = (minute t, '':'' @ ?r5) # xM"
    using field_M_hit[OF v(7), of "'':'' @ ?r5"] by auto
  obtain xS where S: "field_S ?r5 = (second t, []) # xS"
    using field_S_hit[OF v(8), of "[]"] by auto
  have sp: "spaces ('' '' @ ?r3) = [?r3]"
    using spaces_one[of "hour t" "'':'' @ ?r4"] v(6) by simp
  have Y: "field_Y (strftime t) = [(year t, '':'' @ ?r1)]"
    using field_Y_hit[OF v(1), of "'':'' @ ?r1"] by (simp add: strftime_def)
  show ?thesis
    unfolding format_matches_def Y
    using m d H M S sp by (simp add: lit_def)
qed

lemma strptime_strftime: "valid_datetime t \<Longrightarrow> strptime (strftime t) = Inr t"
  using format_matches_strftime[of t] by (auto simp: strptime_def)

section \<open>The organizer's step for one file\<close>

lemma mkdir_exist_ok_preserved:
  "mkdir_exist_ok fs p = (fs', r) \<Longrightarrow> preserved fs fs'"
  using os_mkdir_preserved(1)[of fs p]
  by (cases "os_mkdir fs p") (auto simp: mkdir_exist_ok_def preserved_refl split: option.splits if_splits)

lemma mkdir_parents_preserved:
  "mkdir_parents fs p = (fs', r) \<Longrightarrow> preserved fs fs'"
proof (induction fs p arbitrary: fs' r rule: mkdir_parents.induct)
  case (1 fs p)
  obtain fs1 r1 where m: "os_mkdir fs p = (fs1, r1)" by (cases "os_mkdir fs p")
  from os_mkdir_preserved(1)[OF m] have p1: "preserved fs fs1" .
  show ?case
  proof (cases "r1 = Some FileNotFoundError \<and> p \<noteq> []")
    case False
    with m "1.prems" have "fs' = fs1 \<or> fs' = fs"
      by (subst (asm) mkdir_parents.simps) (auto split: option.splits if_splits)
    with p1 show ?thesis by (auto simp: preserved_refl)
  next
    case True
    obtain fs2 r2 where m2: "mkdir_parents fs (parent p) = (fs2, r2)"
      by (cases "mkdir_parents fs (parent p)")
    from True m have ih: "preserved fs fs2"
      using "1.IH"[of fs1 r1 FileNotFoundError fs2 r2] m2 by simp
    show ?thesis
    proof (cases r2)
      case (Some e2)
      with True m m2 "1.prems" have "fs' = fs2"
        by (subst (asm) mkdir_parents.simps) simp
      with ih show ?thesis by simp
    next
      case None
      with True m m2 "1.prems" have "mkdir_exist_ok fs2 p = (fs', r)"
        by (subst (asm) mkdir_parents.simps) simp
      from mkdir_exist_ok_preserved[OF this] ih show ?thesis by (rule preserved_trans[rotated])
    qed
  qed
qed

lemma os_rename_file:
  assumes "node_at fs src = Some (File c m)" "os_rename fs src dst = (fs', None)"
  shows "node_at fs' dst = Some (File c m) \<and> (src = dst \<or> node_at fs' src = None)"
  using assms
  by (auto simp: os_rename_def node_at_write node_at_remove split: if_splits)

lemma os_rename_file_error:
  assumes "node_at fs src = Some (File c m)" "os_rename fs src dst = (fs', Some e)" "\<not> is_dir fs dst"
  shows "\<exists>e'. copy2 fs src dst = (fs, Some e')"
  using assms
  by (auto simp: os_rename_def copy2_def open_w_def Let_def path_exists_def split: if_splits)

lemma shutil_move_file_result:
  assumes src: "node_at fs src = Some (File c m)"
    and mv: "shutil_move depth fs src dst = (fs', None)"
  shows "\<exists>real. (real = dst \<or> real = dst @ [path_name src])
            \<and> node_at fs' real = Some (File c m) \<and> (src = real \<or> node_at fs' src = None)"
proof -
  let ?real = "if is_dir fs dst then dst @ [path_name src] else dst"
  from src have nd: "\<not> is_dir fs src" by (simp add: is_dir_def)
  have ne: "\<not> (is_dir fs dst \<and> src = dst)" using nd by auto
  have nex: "\<not> (is_dir fs dst \<and> path_exists fs ?real)"
    using mv ne by (auto simp: shutil_move_def Let_def)
  then have rnd: "\<not> is_dir fs ?real" by (auto simp: is_dir_def path_exists_def)
  obtain fs1 r1 where rn: "os_rename fs src ?real = (fs1, r1)" by (cases "os_rename fs src ?real")
  show ?thesis
  proof (cases r1)
    case None
    with mv ne nex rn have "fs' = fs1" by (auto simp: shutil_move_def Let_def)
    with os_rename_file[OF src] rn None
    have "node_at fs' ?real = Some (File c m) \<and> (src = ?real \<or> node_at fs' src = None)" by simp
    then show ?thesis by (metis (full_types))
  next
    case (Some e)
    from os_rename_file_error[OF src _ rnd] rn Some
    obtain e' where "copy2 fs src ?real = (fs, Some e')" by blast
    with mv ne nex rn Some nd have False
      by (auto simp: shutil_move_def Let_def)
    then show ?thesis ..
  qed
qed

lemma strptime_error: "strptime s = Inl e \<Longrightarrow> e = ValueError"
  by (auto simp: strptime_def split: list.splits if_splits prod.splits)

lemma get_photo_date_resolved:
  assumes "is_file fs p" "get_photo_date ext fs p = Inr t"
  shows "resolved_capture_date ext fs p = Some t"
proof -
  from assms(1) obtain c m where f: "node_at fs p = Some (File c m)"
    by (auto simp: is_file_def split: option.splits node.splits)
  then have mt: "mtime_date ext fs p = Inr (fromtimestamp ext m)"
    by (simp add: mtime_date_def st_mtime_def)
  show ?thesis
  proof (cases "run_exiftool ext fs p")
    case (Raised e)
    with assms(2) mt f show ?thesis
      by (auto simp: get_photo_date_def exif_date_def resolved_capture_date_def capture_field_def
               split: if_splits)
  next
    case (Completed rc out err)
    show ?thesis
    proof (cases "rc = 0 \<and> contains ''Date/Time Original'' out")
      case False
      with Completed assms(2) mt f show ?thesis
        by (auto simp: get_photo_date_def exif_date_def resolved_capture_date_def capture_field_def)
    next
      case True
      show ?thesis
      proof (cases "split_once (strip out) '': ''")
        case None
        with True Completed assms(2) show ?thesis
          by (simp add: get_photo_date_def exif_date_def)
      next
        case (Some ld)
        obtain label date_str where ld: "ld = (label, date_str)" by (cases ld)
        show ?thesis
        proof (cases "strptime date_str")
          case (Inr t')
          with True Completed Some ld assms(2) show ?thesis
            by (simp add: get_photo_date_def exif_date_def resolved_capture_date_def
                  capture_field_def parse_capture_def)
        next
          case (Inl e)
          then have "e = ValueError" by (rule strptime_error)
          with Inl True Completed Some ld assms(2) mt f show ?thesis
            by (simp add: get_photo_date_def exif_date_def resolved_capture_date_def
                  capture_field_def parse_capture_def)
        qed
      qed
    qed
  qed
qed

lemma strftime_last:
  assumes "valid_datetime t"
  shows "\<exists>body d. strftime t = body @ [d] \<and> \<not> is_space d"
proof -
  from assms have s: "second t < 100" by (simp add: valid_datetime_def)
  then have "second t mod 10 < 10" by simp
  from digit_char_facts(3)[OF this] s show ?thesis
    by (simp add: strftime_def pad2_digits)
qed

lemma strip_capture_line:
  assumes "valid_datetime t"
  shows "strip (capture_line t) = ''Date/Time Original              : '' @ strftime t"
proof -
  from strftime_last[OF assms] obtain body d where
    b: "strftime t = body @ [d]" "\<not> is_space d" by blast
  have n: "is_space (CHR 0x0A)" by (simp add: is_space_def)
  have D: "\<not> is_space CHR ''D''" by (simp add: is_space_def)
  show ?thesis
    using b n D by (simp add: strip_def capture_line_def newline_def)
qed

lemma capture_line_date:
  assumes "valid_datetime t" "run_exiftool ext fs p = Completed 0 (capture_line t) err"
  shows "resolved_capture_date ext fs p = Some t"
proof -
  have c: "contains ''Date/Time Original'' (capture_line t)"
    by (simp add: capture_line_def)
  have s: "split_once (''Date/Time Original              : '' @ strftime t) '': ''
             = Some (''Date/Time Original              '', strftime t)"
    by (simp add: split_once_def)
  show ?thesis
    using assms c s strip_capture_line[OF assms(1)] strptime_strftime[OF assms(1)]
    by (simp add: resolved_capture_date_def capture_field_def parse_capture_def)
qed

lemma no_capture_field_mtime:
  assumes "node_at fs p = Some (File c m)"
    and "run_exiftool ext fs p = Raised e
         \<or> (\<exists>rc out err. run_exiftool ext fs p = Completed rc out err
               \<and> (rc \<noteq> 0 \<or> \<not> contains ''Date/Time Original'' out))"
  shows "resolved_capture_date ext fs p = Some (fromtimestamp ext m)"
  using assms
  by (auto simp: resolved_capture_date_def capture_field_def)

section \<open>A dry run leaves the filesystem alone, but for the report\<close>

text \<open>
  In a dry run the staging area is not prepared, the walk of the sources counts without
  copying, and the three later steps return at once; an invariant of the loop state holds
  after \<open>os_walk\<close> if every run of the body keeps it.
\<close>

lemma os_walk_invariant:
  assumes "os_walk d fs_of body top_dir s = (s', r)"
    and "P s"
    and step: "\<And>root_dir dirs files t t' q. P t \<Longrightarrow> body root_dir dirs files t = (t', q) \<Longrightarrow> P t'"
  shows "P s'"
  using assms(1,2)
proof (induction d arbitrary: top_dir s s' r)
  case 0
  then show ?case by simp
next
  case (Suc d)
  show ?case
  proof (cases "is_dir (fs_of s) top_dir")
    case False
    with Suc.prems show ?thesis by simp
  next
    case True
    let ?names = "os_listdir (fs_of s) top_dir"
    let ?dirs = "filter (\<lambda>n. is_dir (fs_of s) (top_dir @ [n])) ?names"
    let ?files = "filter (\<lambda>n. \<not> is_dir (fs_of s) (top_dir @ [n])) ?names"
    obtain s1 r1 where b: "body top_dir ?dirs ?files s = (s1, r1)"
      by (cases "body top_dir ?dirs ?files s")
    from step[OF Suc.prems(2) b] have P1: "P s1" .
    show ?thesis
    proof (cases r1)
      case (Some e)
      with True b Suc.prems(1) have "s' = s1" by (simp add: Let_def)
      with P1 show ?thesis by simp
    next
      case None
      with True b Suc.prems(1)
      have fe: "for_each (\<lambda>dirname s2. os_walk d fs_of body (top_dir @ [dirname]) s2) ?dirs s1 = (s', r)"
        by (simp add: Let_def)
      show ?thesis
      proof (rule for_each_invariant[where P = P, OF fe P1])
        fix x t t' q
        assume "P t" "os_walk d fs_of body (top_dir @ [x]) t = (t', q)"
        then show "P t'" using Suc.IH by blast
      qed
    qed
  qed
qed

lemma copy_one_dry:
  assumes "dry_run self" "copy_one source_name root_dir file (self, fs, copied) = (self', fs', copied')"
  shows "fs' = fs \<and> dry_run self' \<and> errors (stats self') = errors (stats self)"
  using assms
  by (auto simp: copy_one_def Let_def split: if_splits)

lemma fold_copy_one_dry:
  assumes "dry_run (fst s)"
  shows "fst (snd (fold (copy_one source_name root_dir) files s)) = fst (snd s)
       \<and> dry_run (fst (fold (copy_one source_name root_dir) files s))
       \<and> errors (stats (fst (fold (copy_one source_name root_dir) files s))) = errors (stats (fst s))"
  using assms
proof (induction files arbitrary: s)
  case Nil
  then show ?case by simp
next
  case (Cons f files)
  obtain self fs c where s: "s = (self, fs, c)" by (cases s)
  obtain self1 fs1 c1 where c: "copy_one source_name root_dir f (self, fs, c) = (self1, fs1, c1)"
    by (cases "copy_one source_name root_dir f (self, fs, c)")
  from Cons.prems s have "dry_run self" by simp
  from copy_one_dry[OF this c] have d: "fs1 = fs" "dry_run self1"
    "errors (stats self1) = errors (stats self)" by auto
  from Cons.IH[of "(self1, fs1, c1)"] d s c show ?case by simp
qed

lemma copy_photos_from_source_dry:
  assumes "dry_run self"
    and "copy_photos_from_source depth self fs source_path source_name = (self', fs', r)"
  shows "fs' = fs \<and> dry_run self' \<and> errors (stats self') = errors (stats self)"
proof -
  let ?body = "\<lambda>root_dir dirs files s. (fold (copy_one source_name root_dir) files s, None :: exn option)"
  let ?P = "\<lambda>s. fst (snd s) = fs \<and> dry_run (fst s) \<and> errors (stats (fst s)) = errors (stats self)"
  obtain s' r' where w: "os_walk depth (\<lambda>(self1, fs1, copied). fs1) ?body source_path (self, fs, 0) = (s', r')"
    by (cases "os_walk depth (\<lambda>(self1, fs1, copied). fs1) ?body source_path (self, fs, 0)")
  have "?P s'"
  proof (rule os_walk_invariant[where P = ?P, OF w])
    show "?P (self, fs, 0)" using assms(1) by simp
  next
    fix root_dir dirs files t t' q
    assume P: "?P t" and b: "?body root_dir dirs files t = (t', q)"
    from b have t': "t' = fold (copy_one source_name root_dir) files t" by simp
    from P fold_copy_one_dry[of t source_name root_dir files] show "?P t'"
      unfolding t' by simp
  qed
  moreover from assms(2) w have "self' = fst s'" "fs' = fst (snd s')"
    by (auto simp: copy_photos_from_source_def split: prod.splits)
  ultimately show ?thesis by simp
qed

lemma gather_all_photos_dry:
  assumes "dry_run self" "gather_all_photos depth self fs sources = (self', fs', r)"
  shows "fs' = fs \<and> dry_run self' \<and> errors (stats self') = errors (stats self)"
proof -
  let ?body = "\<lambda>(source_name, info) (self1, fs1).
                case copy_photos_from_source depth self1 fs1 (info_path info) source_name of
                  (self2, fs2, r) \<Rightarrow> ((self2, fs2), r)"
  let ?P = "\<lambda>s. snd s = fs \<and> dry_run (fst s) \<and> errors (stats (fst s)) = errors (stats self)"
  obtain s' r' where fe: "for_each ?body sources (self, fs) = (s', r')"
    by (cases "for_each ?body sources (self, fs)")
  have "?P s'"
  proof (rule for_each_invariant[where P = ?P, OF fe])
    show "?P (self, fs)" using assms(1) by simp
  next
    fix x t t' q
    assume P: "?P t" and b: "?body x t = (t', q)"
    obtain name info where x: "x = (name, info)" by (cases x)
    obtain self1 fs1 where t: "t = (self1, fs1)" by (cases t)
    obtain self2 fs2 r2 where
      c: "copy_photos_from_source depth self1 fs1 (info_path info) name = (self2, fs2, r2)"
      by (cases "copy_photos_from_source depth self1 fs1 (info_path info) name")
    from P t have "dry_run self1" by simp
    from copy_photos_from_source_dry[OF this c] b x t c P show "?P t'" by auto
  qed
  moreover from assms(2) fe have "self' = fst s'" "fs' = snd s'"
    by (auto simp: gather_all_photos_def split: prod.splits)
  ultimately show ?thesis by simp
qed

lemma generate_report_frame:
  assumes "generate_report ext self fs = (fs', res)"
  shows "(\<forall>p. p \<noteq> report_file \<longrightarrow> node_at fs' p = node_at fs p)
       \<and> (\<forall>rep. res = Inr rep \<longrightarrow>
            node_at fs' report_file = Some (File (json_dump ext rep) (now_timestamp ext))
          \<and> statistics rep = stats self \<and> report_dry_run rep = dry_run self)"
  using assms
  by (auto simp: generate_report_def Let_def node_at_write split: option.splits)

lemma consolidation_steps_dry:
  assumes "dry_run self" "consolidation_steps ext depth self fs = (self', fs', r)"
  shows "(\<forall>p. p \<noteq> report_file \<longrightarrow> node_at fs' p = node_at fs p)
       \<and> (r = None \<longrightarrow> (\<exists>rep. node_at fs' report_file = Some (File (json_dump ext rep) (now_timestamp ext))
                           \<and> statistics rep = stats self' \<and> report_dry_run rep))
       \<and> errors (stats self') = errors (stats self) \<and> dry_run self'"
proof (cases "discover_photo_sources depth fs")
  case (Inl e)
  with assms show ?thesis by (auto simp: consolidation_steps_def)
next
  case (Inr sources)
  define self1 where "self1 = self\<lparr>stats := (stats self)
                        \<lparr>files_found := sum_list (map (\<lambda>(name, s). file_count s) sources),
                         total_size_mb := sum_list (map (\<lambda>(name, s). size_mb s) sources)\<rparr>\<rparr>"
  have d1: "dry_run self1" "errors (stats self1) = errors (stats self)"
    using assms(1) by (simp_all add: self1_def)
  have p: "prepare_staging_area self1 fs = (fs, None)"
    using d1 by (simp add: prepare_staging_area_def)
  obtain self3 fs3 r3 where g: "gather_all_photos depth self1 fs sources = (self3, fs3, r3)"
    by (cases "gather_all_photos depth self1 fs sources")
  from gather_all_photos_dry[OF d1(1) g]
  have g3: "fs3 = fs" "dry_run self3" "errors (stats self3) = errors (stats self1)" by auto
  have j: "run_jdupes_deduplication ext depth self3 fs = (self3, fs, None)"
    using g3 by (simp add: run_jdupes_deduplication_def)
  have o: "organize_by_date ext depth self3 fs = (self3, fs, [], None)"
    using g3 by (simp add: organize_by_date_def)
  have i: "import_to_darktable ext depth self3 fs = (self3, fs)"
    using g3 by (simp add: import_to_darktable_def)
  obtain fs7 res where rp: "generate_report ext self3 fs = (fs7, res)"
    by (cases "generate_report ext self3 fs")
  have steps: "consolidation_steps ext depth self fs =
      (case r3 of Some e \<Rightarrow> (self3, fs, Some e)
       | None \<Rightarrow> (case res of Inl e \<Rightarrow> (self3, fs7, Some e) | Inr rep \<Rightarrow> (self3, fs7, None)))"
    using Inr p g g3(1) j o i rp
    by (simp add: consolidation_steps_def Let_def self1_def[symmetric] split: option.splits sum.splits)
  show ?thesis
  proof (cases r3)
    case (Some e)
    with steps assms(2) g3 d1 show ?thesis by simp
  next
    case None
    with steps assms(2) have e: "self' = self3" "fs' = fs7" "r = (case res of Inl e \<Rightarrow> Some e | Inr rep \<Rightarrow> None)"
      by (auto split: sum.splits)
    from generate_report_frame[OF rp] e g3 d1 show ?thesis
      by (cases res) auto
  qed
qed

section \<open>The bound on the nesting\<close>

text \<open>
  The first argument of \<open>copytree\<close>, \<open>merge_directories\<close> and \<open>os_walk\<close> stands for the
  recursion limit of the interpreter. A run that does not end in \<^verbatim>\<open>RecursionError\<close>
  is the same run under every larger bound.
\<close>

lemma for_each_same_result:
  assumes "for_each f xs s = (s', r)" and "r \<noteq> Some RecursionError"
    and "\<And>x t t' q. x \<in> set xs \<Longrightarrow> f x t = (t', q) \<Longrightarrow> q \<noteq> Some RecursionError \<Longrightarrow> g x t = (t', q)"
  shows "for_each g xs s = (s', r)"
  using assms
proof (induction xs arbitrary: s)
  case Nil
  then show ?case by simp
next
  case (Cons x xs)
  obtain s1 q where fx: "f x s = (s1, q)" by (cases "f x s") auto
  show ?case
  proof (cases q)
    case None
    with fx Cons.prems(1) have rest: "for_each f xs s1 = (s', r)" by simp
    from Cons.prems(3)[OF _ fx] None have gx: "g x s = (s1, None)" by simp
    have "for_each g xs s1 = (s', r)"
      by (rule Cons.IH[OF rest Cons.prems(2)]) (rule Cons.prems(3), auto)
    with gx show ?thesis by simp
  next
    case (Some e)
    with fx Cons.prems(1) have eq: "s' = s1" "r = Some e" by auto
    with Cons.prems(2) have "q \<noteq> Some RecursionError" using Some by simp
    from Cons.prems(3)[OF _ fx this] have "g x s = (s1, q)" by simp
    with Some eq show ?thesis by simp
  qed
qed

lemma copytree_more_depth:
  "copytree d fs src dst = (fs', r) \<Longrightarrow> r \<noteq> Some RecursionError
     \<Longrightarrow> copytree (Suc d) fs src dst = (fs', r)"
proof (induction d arbitrary: fs src dst fs' r)
  case 0
  then show ?case by simp
next
  case (Suc d)
  let ?body = "\<lambda>k. (\<lambda>(n, isd) (fs2, errs).
                   case (if isd then copytree k fs2 (src @ [n]) (dst @ [n])
                         else copy2 fs2 (src @ [n]) (dst @ [n])) of
                     (fs3, None) \<Rightarrow> ((fs3, errs), None)
                   | (fs3, Some e) \<Rightarrow>
                       if is_OSError e then ((fs3, errs @ [e]), None)
                       else ((fs3, errs), Some e))"
  let ?entries = "map (\<lambda>n. (n, is_dir fs (src @ [n]))) (os_listdir fs src)"
  show ?case
  proof (cases "is_dir fs src")
    case False
    with Suc.prems show ?thesis by auto
  next
    case True
    obtain fs1 r1 where mk: "makedirs fs dst = (fs1, r1)" by (cases "makedirs fs dst") auto
    show ?thesis
    proof (cases r1)
      case (Some e)
      with Suc.prems True mk show ?thesis by auto
    next
      case None
      obtain fs4 errs r4 where fe: "for_each (?body d) ?entries (fs1, []) = ((fs4, errs), r4)"
        by (cases "for_each (?body d) ?entries (fs1, [])") auto
      have res: "(fs', r) = (case r4 of Some e \<Rightarrow> (fs4, Some e)
                    | None \<Rightarrow> if errs \<noteq> [] then (fs4, Some Shutil_Error) else (fs4, None))"
        using Suc.prems(1) True mk None fe by (simp add: Let_def split: option.splits)
      have r4: "r4 \<noteq> Some RecursionError"
        using res Suc.prems(2) by (auto split: option.splits)
      have step: "\<And>x t t' q. x \<in> set ?entries \<Longrightarrow> ?body d x t = (t', q)
                    \<Longrightarrow> q \<noteq> Some RecursionError \<Longrightarrow> ?body (Suc d) x t = (t', q)"
      proof -
        fix x :: "string \<times> bool" and t t' :: "filesystem \<times> exn list" and q
        assume b: "?body d x t = (t', q)" and q: "q \<noteq> Some RecursionError"
        obtain n isd where x: "x = (n, isd)" by (cases x) auto
        obtain fs2 es where t: "t = (fs2, es)" by (cases t) auto
        show "?body (Suc d) x t = (t', q)"
        proof (cases isd)
          case False
          with b x t show ?thesis by simp
        next
          case True
          obtain fs3 r3 where c: "copytree d fs2 (src @ [n]) (dst @ [n]) = (fs3, r3)"
            by (cases "copytree d fs2 (src @ [n]) (dst @ [n])") auto
          have "r3 \<noteq> Some RecursionError"
            using b q x t True c by (auto split: option.splits if_splits)
          from Suc.IH[OF c this] have "copytree (Suc d) fs2 (src @ [n]) (dst @ [n]) = (fs3, r3)" .
          with b x t True c show ?thesis by simp
        qed
      qed
      have fe': "for_each (?body (Suc d)) ?entries (fs1, []) = ((fs4, errs), r4)"
        by (rule for_each_same_result[OF fe r4]) (rule step, assumption+)
      have "copytree (Suc (Suc d)) fs src dst = (case r4 of Some e \<Rightarrow> (fs4, Some e)
                    | None \<Rightarrow> if errs \<noteq> [] then (fs4, Some Shutil_Error) else (fs4, None))"
        using True mk None fe' by (simp add: Let_def split: option.splits)
      with res show ?thesis by simp
    qed
  qed
qed

lemma merge_directories_more_depth:
  "merge_directories d fs src_dir dest_dir = (fs', r) \<Longrightarrow> r \<noteq> Some RecursionError
     \<Longrightarrow> merge_directories (Suc d) fs src_dir dest_dir = (fs', r)"
proof (induction d arbitrary: fs src_dir dest_dir fs' r)
  case 0
  then show ?case by simp
next
  case (Suc d)
  let ?body = "\<lambda>k. (\<lambda>src_item fs1.
               let dest_item = dest_dir @ [path_name src_item] in
               if is_dir fs1 src_item then
                 (if path_exists fs1 dest_item
                  then merge_directories k fs1 src_item dest_item
                  else copytree k fs1 src_item dest_item)
               else
                 copy2 fs1 src_item
                   (if path_exists fs1 dest_item
                    then suffix_loop fs1 dest_dir (stem_of (path_name dest_item))
                           (suffix_of (path_name dest_item)) dest_item 1
                    else dest_item))"
  show ?case
  proof (cases "iterdir fs src_dir")
    case (Inl e)
    with Suc.prems show ?thesis by auto
  next
    case (Inr items)
    with Suc.prems(1) have fe: "for_each (?body d) items fs = (fs', r)" by simp
    have step: "\<And>x t t' q. x \<in> set items \<Longrightarrow> ?body d x t = (t', q)
                    \<Longrightarrow> q \<noteq> Some RecursionError \<Longrightarrow> ?body (Suc d) x t = (t', q)"
    proof -
      fix x t t' q
      assume b: "?body d x t = (t', q)" and q: "q \<noteq> Some RecursionError"
      show "?body (Suc d) x t = (t', q)"
      proof (cases "is_dir t x")
        case False
        with b show ?thesis by (simp add: Let_def)
      next
        case True
        show ?thesis
        proof (cases "path_exists t (dest_dir @ [path_name x])")
          case True
          with b \<open>is_dir t x\<close>
          have "merge_directories d t x (dest_dir @ [path_name x]) = (t', q)" by (simp add: Let_def)
          from Suc.IH[OF this q] True \<open>is_dir t x\<close> show ?thesis by (simp add: Let_def)
        next
          case False
          with b \<open>is_dir t x\<close>
          have "copytree d t x (dest_dir @ [path_name x]) = (t', q)" by (simp add: Let_def)
          from copytree_more_depth[OF this q] False \<open>is_dir t x\<close> show ?thesis by (simp add: Let_def)
        qed
      qed
    qed
    have "for_each (?body (Suc d)) items fs = (fs', r)"
      by (rule for_each_same_result[OF fe Suc.prems(2)]) (rule step, assumption+)
    with Inr show ?thesis by simp
  qed
qed

lemma os_walk_more_depth:
  "os_walk d fs_of body top_dir s = (s', r) \<Longrightarrow> r \<noteq> Some RecursionError
     \<Longrightarrow> os_walk (Suc d) fs_of body top_dir s = (s', r)"
proof (induction d arbitrary: top_dir s s' r)
  case 0
  then show ?case by simp
next
  case (Suc d)
  show ?case
  proof (cases "is_dir (fs_of s) top_dir")
    case False
    with Suc.prems show ?thesis by auto
  next
    case True
    let ?dirs = "filter (\<lambda>n. is_dir (fs_of s) (top_dir @ [n])) (os_listdir (fs_of s) top_dir)"
    let ?files = "filter (\<lambda>n. \<not> is_dir (fs_of s) (top_dir @ [n])) (os_listdir (fs_of s) top_dir)"
    obtain s1 r1 where b: "body top_dir ?dirs ?files s = (s1, r1)"
      by (cases "body top_dir ?dirs ?files s") auto
    show ?thesis
    proof (cases r1)
      case (Some e)
      with Suc.prems True b show ?thesis by (auto simp: Let_def)
    next
      case None
      have eq: "\<And>k. os_walk (Suc k) fs_of body top_dir s
                  = for_each (\<lambda>dirname s2. os_walk k fs_of body (top_dir @ [dirname]) s2) ?dirs s1"
        using True b None by (simp add: Let_def)
      from Suc.prems(1)
      have fe: "for_each (\<lambda>dirname s2. os_walk d fs_of body (top_dir @ [dirname]) s2) ?dirs s1 = (s', r)"
        by (simp only: eq)
      have "for_each (\<lambda>dirname s2. os_walk (Suc d) fs_of body (top_dir @ [dirname]) s2) ?dirs s1 = (s', r)"
        by (rule for_each_same_result[OF fe Suc.prems(2)]) (rule Suc.IH)
      then show ?thesis by (simp only: eq)
    qed
  qed
qed

lemma copytree_depth_mono:
  "copytree d fs src dst = (fs', r) \<Longrightarrow> r \<noteq> Some RecursionError
     \<Longrightarrow> copytree (d + k) fs src dst = (fs', r)"
  by (induction k) (auto dest: copytree_more_depth)

lemma merge_directories_depth_mono:
  "merge_directories d fs src_dir dest_dir = (fs', r) \<Longrightarrow> r \<noteq> Some RecursionError
     \<Longrightarrow> merge_directories (d + k) fs src_dir dest_dir = (fs', r)"
  by (induction k) (auto dest: merge_directories_more_depth)

lemma os_walk_depth_mono:
  "os_walk d fs_of body top_dir s = (s', r) \<Longrightarrow> r \<noteq> Some RecursionError
     \<Longrightarrow> os_walk (d + k) fs_of body top_dir s = (s', r)"
  by (induction k) (auto dest: os_walk_more_depth)

text \<open>
  A walk returns when the bound exceeds the length of every path of the table; so do
  the two measurements of a source and the discovery of the sources.
\<close>

lemma for_each_total:
  assumes "P s"
    and "\<And>x t. x \<in> set xs \<Longrightarrow> P t \<Longrightarrow> \<exists>t'. f x t = (t', None) \<and> P t'"
  shows "\<exists>s'. for_each f xs s = (s', None) \<and> P s'"
  using assms
proof (induction xs arbitrary: s)
  case Nil
  then show ?case by simp
next
  case (Cons x xs)
  from Cons.prems(2)[of x s] Cons.prems(1) obtain s1 where s1: "f x s = (s1, None)" "P s1" by auto
  have "\<exists>s'. for_each f xs s1 = (s', None) \<and> P s'"
    by (rule Cons.IH[OF s1(2)]) (rule Cons.prems(2), auto)
  with s1 show ?case by simp
qed

lemma os_walk_enough_depth:
  assumes "is_dir (fs_of s) top_dir \<or> 0 < d"
    and "\<And>p. path_exists (fs_of s) p \<Longrightarrow> length p < length top_dir + d"
    and body: "\<And>root_dir dirs files t. \<exists>t'. body root_dir dirs files t = (t', None) \<and> fs_of t' = fs_of t"
  shows "\<exists>s'. os_walk d fs_of body top_dir s = (s', None) \<and> fs_of s' = fs_of s"
  using assms(1,2)
proof (induction d arbitrary: top_dir s)
  case 0
  then have "path_exists (fs_of s) top_dir" by (simp add: is_dir_def path_exists_def)
  with 0(2)[of top_dir] show ?case by simp
next
  case (Suc d)
  show ?case
  proof (cases "is_dir (fs_of s) top_dir")
    case False
    then show ?thesis by simp
  next
    case True
    let ?dirs = "filter (\<lambda>n. is_dir (fs_of s) (top_dir @ [n])) (os_listdir (fs_of s) top_dir)"
    let ?files = "filter (\<lambda>n. \<not> is_dir (fs_of s) (top_dir @ [n])) (os_listdir (fs_of s) top_dir)"
    from body[of top_dir ?dirs ?files s] obtain s1 where
      b: "body top_dir ?dirs ?files s = (s1, None)" and s1: "fs_of s1 = fs_of s" by blast
    have eq: "os_walk (Suc d) fs_of body top_dir s
                = for_each (\<lambda>dirname s2. os_walk d fs_of body (top_dir @ [dirname]) s2) ?dirs s1"
      using True b by (simp add: Let_def)
    have "\<exists>s'. for_each (\<lambda>dirname s2. os_walk d fs_of body (top_dir @ [dirname]) s2) ?dirs s1 = (s', None)
             \<and> fs_of s' = fs_of s"
    proof (rule for_each_total[where P = "\<lambda>t. fs_of t = fs_of s", OF s1])
      fix x t
      assume x: "x \<in> set ?dirs" and t: "fs_of t = fs_of s"
      from x have dx: "is_dir (fs_of t) (top_dir @ [x])" using t by simp
      have "\<exists>s'. os_walk d fs_of body (top_dir @ [x]) t = (s', None) \<and> fs_of s' = fs_of t"
      proof (rule Suc.IH)
        show "is_dir (fs_of t) (top_dir @ [x]) \<or> 0 < d" using dx by simp
      next
        fix p assume "path_exists (fs_of t) p"
        with Suc.prems(2)[of p] t show "length p < length (top_dir @ [x]) + d" by simp
      qed
      with t show "\<exists>t'. os_walk d fs_of body (top_dir @ [x]) t = (t', None) \<and> fs_of t' = fs_of s"
        by auto
    qed
    then show ?thesis by (simp only: eq)
  qed
qed

lemma shallower_exists: "shallower fs depth \<Longrightarrow> path_exists fs p \<Longrightarrow> length p < depth"
proof -
  assume a: "shallower fs depth" and b: "path_exists fs p"
  from b obtain n where "(p, n) \<in> set fs"
    by (auto simp: path_exists_def node_at_def dest: map_of_SomeD)
  with a show ?thesis by (auto simp: shallower_def list_all_iff)
qed

lemma count_photos_in_path_total:
  assumes "shallower fs depth" "path_exists fs p"
  shows "\<exists>n. count_photos_in_path depth fs p = Inr n"
proof -
  let ?body = "\<lambda>root_dir dirs files (fs1, count).
                ((fs1, count + length (filter (\<lambda>file. str_lower (suffix_of file) \<in> set photo_extensions)
                                         files)), None)"
  have "\<exists>s'. os_walk depth fst ?body p (fs, 0::nat) = (s', None) \<and> fst s' = fst (fs, 0::nat)"
  proof (rule os_walk_enough_depth)
    from shallower_exists[OF assms] show "is_dir (fst (fs, 0::nat)) p \<or> 0 < depth" by simp
  next
    fix q assume "path_exists (fst (fs, 0::nat)) q"
    with shallower_exists[OF assms(1), of q] show "length q < length p + depth" by simp
  next
    fix root_dir dirs files and t :: "filesystem \<times> nat"
    show "\<exists>t'. ?body root_dir dirs files t = (t', None) \<and> fst t' = fst t"
      by (cases t) simp
  qed
  then show ?thesis by (auto simp: count_photos_in_path_def)
qed

lemma get_directory_size_mb_total:
  assumes "shallower fs depth" "path_exists fs p"
  shows "\<exists>mb. get_directory_size_mb depth fs p = Inr mb"
proof -
  let ?body = "\<lambda>root_dir dirs files (fs1, total_size).
                ((fs1, fold (\<lambda>file total.
                               case st_size fs1 (root_dir @ [file]) of
                                 Inr n \<Rightarrow> total + n
                               | Inl e \<Rightarrow> total)
                          files total_size), None)"
  have "\<exists>s'. os_walk depth fst ?body p (fs, 0::nat) = (s', None) \<and> fst s' = fst (fs, 0::nat)"
  proof (rule os_walk_enough_depth)
    from shallower_exists[OF assms] show "is_dir (fst (fs, 0::nat)) p \<or> 0 < depth" by simp
  next
    fix q assume "path_exists (fst (fs, 0::nat)) q"
    with shallower_exists[OF assms(1), of q] show "length q < length p + depth" by simp
  next
    fix root_dir dirs files and t :: "filesystem \<times> nat"
    show "\<exists>t'. ?body root_dir dirs files t = (t', None) \<and> fst t' = fst t"
      by (cases t) simp
  qed
  then obtain s' where "os_walk depth fst ?body p (fs, 0::nat) = (s', None)" by blast
  then have "get_directory_size_mb depth fs p = Inr (of_nat (snd s') / (1024 * 1024))"
    by (cases s') (simp add: get_directory_size_mb_def)
  then show ?thesis by (rule exI)
qed

lemma discover_photo_sources_total:
  assumes "shallower fs depth"
  shows "\<exists>sources. discover_photo_sources depth fs = Inr sources"
proof -
  let ?f = "\<lambda>(name, p) discovered.
                if path_exists fs p then
                  (case count_photos_in_path depth fs p of
                     Inl e \<Rightarrow> (discovered, Some e)
                   | Inr n \<Rightarrow>
                       (case get_directory_size_mb depth fs p of
                          Inl e \<Rightarrow> (discovered, Some e)
                        | Inr mb \<Rightarrow>
                            (discovered @ [(name, \<lparr>info_path = p, file_count = n, size_mb = mb\<rparr>)],
                             None)))
                else (discovered, None)"
  have "\<exists>s'. for_each ?f configured_sources [] = (s', None) \<and> True"
  proof (rule for_each_total[where P = "\<lambda>t. True"])
    fix x :: "string \<times> path" and t :: "(string \<times> source_info) list"
    obtain name p where x: "x = (name, p)" by (cases x) auto
    show "\<exists>t'. ?f x t = (t', None) \<and> True"
    proof (cases "path_exists fs p")
      case False
      with x show ?thesis by simp
    next
      case True
      from count_photos_in_path_total[OF assms True] obtain n where
        "count_photos_in_path depth fs p = Inr n" by blast
      moreover from get_directory_size_mb_total[OF assms True] obtain mb where
        "get_directory_size_mb depth fs p = Inr mb" by blast
      ultimately show ?thesis using x True by simp
    qed
  qed simp
  then show ?thesis by (auto simp: discover_photo_sources_def)
qed

text \<open>
  The copies write at the destination, below it, and (making a missing directory) above
  it. When the source and the destination are apart, neither inside the other, the source
  tree is as it was all along, and a bound that exceeds the depth of the source tree is
  never reached by \<open>copytree\<close> or by the merge.
\<close>

lemma near_refl: "near dst fs fs"
  by (simp add: near_def)

lemma near_trans: "near dst a b \<Longrightarrow> near dst b c \<Longrightarrow> near dst a c"
  by (simp add: near_def)

lemma near_deeper: "near (dst @ r) a b \<Longrightarrow> near dst a b"
  unfolding near_def
proof (intro allI impI)
  fix p
  assume h: "\<forall>p. \<not> prefix p (dst @ r) \<and> \<not> prefix (dst @ r) p \<longrightarrow> node_at b p = node_at a p"
    and p: "\<not> prefix p dst \<and> \<not> prefix dst p"
  have "\<not> prefix p (dst @ r)"
  proof
    assume "prefix p (dst @ r)"
    moreover have "prefix dst (dst @ r)" by simp
    ultimately have "prefix p dst \<or> prefix dst p" by (rule prefix_same_cases)
    with p show False by simp
  qed
  moreover have "\<not> prefix (dst @ r) p" using p append_prefixD by blast
  ultimately show "node_at b p = node_at a p" using h by blast
qed

lemma near_apart:
  assumes "near dst fs fs'" "\<not> prefix src dst" "\<not> prefix dst src" "prefix src p"
  shows "node_at fs' p = node_at fs p"
proof -
  have "\<not> prefix p dst"
  proof
    assume "prefix p dst"
    with assms(4) have "prefix src dst" by (rule prefix_order.trans)
    with assms(2) show False by simp
  qed
  moreover have "\<not> prefix dst p"
  proof
    assume "prefix dst p"
    with assms(4) have "prefix src dst \<or> prefix dst src" by (rule prefix_same_cases)
    with assms(2,3) show False by simp
  qed
  ultimately show ?thesis using assms(1) by (simp add: near_def)
qed

lemma lookup_error_cases: "lookup_error fs p = NotADirectoryError \<or> lookup_error fs p = FileNotFoundError"
  by (simp add: lookup_error_def)

lemma os_mkdir_writes:
  assumes "os_mkdir fs p = (fs', r)"
  shows "\<forall>q. q \<noteq> p \<longrightarrow> node_at fs' q = node_at fs q" and "r \<noteq> Some RecursionError"
  using assms lookup_error_cases[of fs "parent p"]
  by (auto simp: os_mkdir_def node_at_write split: if_splits)

lemma makedirs_writes:
  "makedirs fs p = (fs', r) \<Longrightarrow>
     (\<forall>q. \<not> prefix q p \<longrightarrow> node_at fs' q = node_at fs q) \<and> r \<noteq> Some RecursionError"
proof (induction fs p arbitrary: fs' r rule: makedirs.induct)
  case (1 fs p)
  show ?case
  proof (cases "p \<noteq> [] \<and> \<not> path_exists fs (parent p)")
    case True
    obtain fs1 r1 where m: "makedirs fs (parent p) = (fs1, r1)" by (cases "makedirs fs (parent p)")
    from "1.IH"[OF True m]
    have ih: "\<forall>q. \<not> prefix q (parent p) \<longrightarrow> node_at fs1 q = node_at fs q" "r1 \<noteq> Some RecursionError"
      by auto
    have pp: "prefix (parent p) p" by (simp add: parent_def prefixeq_butlast)
    have ih': "\<forall>q. \<not> prefix q p \<longrightarrow> node_at fs1 q = node_at fs q"
      using ih(1) pp prefix_order.trans by blast
    show ?thesis
    proof (cases "r1 = None \<or> r1 = Some FileExistsError")
      case True
      with \<open>p \<noteq> [] \<and> \<not> path_exists fs (parent p)\<close> m "1.prems"
      have "os_mkdir fs1 p = (fs', r)"
        by (subst (asm) makedirs.simps) (auto split: if_splits)
      from os_mkdir_writes[OF this] ih' show ?thesis by auto
    next
      case False
      with \<open>p \<noteq> [] \<and> \<not> path_exists fs (parent p)\<close> m "1.prems"
      have "fs' = fs1 \<and> r = r1"
        by (subst (asm) makedirs.simps) (auto split: if_splits)
      with ih' ih(2) show ?thesis by simp
    qed
  next
    case False
    with "1.prems" have "os_mkdir fs p = (fs', r)"
      by (subst (asm) makedirs.simps) (auto split: if_splits)
    from os_mkdir_writes[OF this] show ?thesis by auto
  qed
qed

lemma makedirs_near: "makedirs fs p = (fs', r) \<Longrightarrow> near p fs fs'"
  using makedirs_writes[of fs p fs' r] by (simp add: near_def)

lemma copy2_near:
  assumes "copy2 fs src dst = (fs', r)"
  shows "near dst fs fs'" and "r \<noteq> Some RecursionError"
  using assms lookup_error_cases[of fs src]
    lookup_error_cases[of fs "parent (if is_dir fs dst then dst @ [path_name src] else dst)"]
  by (auto simp: copy2_def Let_def near_def node_at_write open_w_def
           split: if_splits option.splits node.splits)

lemma for_each_no_error:
  assumes "for_each f xs s = (s', r)" and "P s"
    and "\<And>x t t' q. x \<in> set xs \<Longrightarrow> P t \<Longrightarrow> f x t = (t', q) \<Longrightarrow> P t' \<and> q \<noteq> Some E"
  shows "P s' \<and> r \<noteq> Some E"
  using assms
proof (induction xs arbitrary: s)
  case Nil
  then show ?case by auto
next
  case (Cons x xs)
  obtain t q where b: "f x s = (t, q)" by (cases "f x s")
  from Cons.prems(3)[of x s t q] Cons.prems(2) b have Pt: "P t" and q: "q \<noteq> Some E" by auto
  show ?case
  proof (cases q)
    case None
    with b Cons.prems(1) have "for_each f xs t = (s', r)" by simp
    then show ?thesis
      by (rule Cons.IH[OF _ Pt]) (rule Cons.prems(3), auto)
  next
    case (Some e)
    with b Cons.prems(1) have "s' = t" "r = q" by auto
    with Pt q show ?thesis by simp
  qed
qed

lemma copytree_near: "copytree d fs src dst = (fs', r) \<Longrightarrow> near dst fs fs'"
proof (induction d arbitrary: fs src dst fs' r)
  case 0
  then show ?case by (simp add: near_refl)
next
  case (Suc d)
  show ?case
  proof (cases "is_dir fs src")
    case False
    with Suc.prems show ?thesis by (simp add: near_refl)
  next
    case True
    obtain fs1 r1 where mk: "makedirs fs dst = (fs1, r1)" by (cases "makedirs fs dst")
    from makedirs_near[OF mk] have p1: "near dst fs fs1" .
    show ?thesis
    proof (cases r1)
      case (Some e)
      with True mk Suc.prems have "fs' = fs1" by simp
      with p1 show ?thesis by simp
    next
      case None
      let ?body = "\<lambda>(n, isd) (fs2, errs).
                   case (if isd then copytree d fs2 (src @ [n]) (dst @ [n])
                         else copy2 fs2 (src @ [n]) (dst @ [n])) of
                     (fs3, None) \<Rightarrow> ((fs3, errs), None)
                   | (fs3, Some e) \<Rightarrow>
                       if is_OSError e then ((fs3, errs @ [e]), None)
                       else ((fs3, errs), Some e)"
      let ?entries = "map (\<lambda>n. (n, is_dir fs (src @ [n]))) (os_listdir fs src)"
      obtain fs4 errs r4 where fe: "for_each ?body ?entries (fs1, []) = ((fs4, errs), r4)"
        by (cases "for_each ?body ?entries (fs1, [])") auto
      have eq: "copytree (Suc d) fs src dst =
          (case for_each ?body ?entries (fs1, []) of
               ((fs4, errs), Some e) \<Rightarrow> (fs4, Some e)
             | ((fs4, errs), None) \<Rightarrow>
                 if errs \<noteq> [] then (fs4, Some Shutil_Error) else (fs4, None))"
        using True mk None by (simp add: Let_def)
      have "fs' = fs4" using Suc.prems unfolding eq fe
        by (cases r4) (auto split: if_splits)
      let ?P = "\<lambda>s. near dst fs (fst s)"
      have "?P (fs4, errs)"
      proof (rule for_each_invariant[where P = ?P, OF fe])
        show "?P (fs1, [])" using p1 by simp
      next
        fix x t t' q
        assume P: "?P t" and b: "?body x t = (t', q)"
        obtain n isd where x: "x = (n, isd)" by (cases x)
        obtain fs2 es where t: "t = (fs2, es)" by (cases t)
        obtain fs3 r3 where
          st: "(if isd then copytree d fs2 (src @ [n]) (dst @ [n])
                else copy2 fs2 (src @ [n]) (dst @ [n])) = (fs3, r3)"
          by (cases "(if isd then copytree d fs2 (src @ [n]) (dst @ [n])
                else copy2 fs2 (src @ [n]) (dst @ [n]))") auto
        from b have "(case (fs3, r3) of
                     (fs3, None) \<Rightarrow> ((fs3, es), None)
                   | (fs3, Some e) \<Rightarrow>
                       if is_OSError e then ((fs3, es @ [e]), None)
                       else ((fs3, es), Some e)) = (t', q)"
          unfolding x t st[symmetric] by simp
        then have t': "fst t' = fs3"
          by (cases r3) (auto split: if_splits)
        have "near (dst @ [n]) fs2 fs3"
        proof (cases isd)
          case True
          with st show ?thesis using Suc.IH by simp
        next
          case False
          with st show ?thesis using copy2_near(1) by auto
        qed
        then have "near dst fs2 fs3" by (rule near_deeper)
        with P t t' show "?P t'" by (auto intro: near_trans)
      qed
      with \<open>fs' = fs4\<close> show ?thesis by simp
    qed
  qed
qed

lemma suffix_loop_below:
  "prefix dest_dir dest_item \<Longrightarrow> prefix dest_dir (suffix_loop fs dest_dir b e dest_item c)"
proof (induction fs dest_dir b e dest_item c rule: suffix_loop.induct)
  case (1 fs dest_dir base_name extension dest_item counter)
  show ?case
  proof (cases "path_exists fs dest_item")
    case True
    with "1.IH" show ?thesis by (subst suffix_loop.simps) simp
  next
    case False
    with "1.prems" show ?thesis by (subst suffix_loop.simps) simp
  qed
qed

lemma near_below: "near dst' a b \<Longrightarrow> prefix dst dst' \<Longrightarrow> near dst a b"
  by (auto simp: prefix_def intro: near_deeper)

lemma merge_directories_near:
  "merge_directories d fs src dst = (fs', r) \<Longrightarrow> near dst fs fs'"
proof (induction d arbitrary: fs src dst fs' r)
  case 0
  then show ?case by (simp add: near_refl)
next
  case (Suc d)
  let ?body = "\<lambda>src_item fs1.
               let dest_item = dst @ [path_name src_item] in
               if is_dir fs1 src_item then
                 (if path_exists fs1 dest_item
                  then merge_directories d fs1 src_item dest_item
                  else copytree d fs1 src_item dest_item)
               else
                 copy2 fs1 src_item
                   (if path_exists fs1 dest_item
                    then suffix_loop fs1 dst (stem_of (path_name dest_item))
                           (suffix_of (path_name dest_item)) dest_item 1
                    else dest_item)"
  show ?case
  proof (cases "iterdir fs src")
    case (Inl e)
    with Suc.prems show ?thesis by (auto simp: near_refl)
  next
    case (Inr items)
    with Suc.prems have fe: "for_each ?body items fs = (fs', r)" by simp
    show ?thesis
    proof (rule for_each_invariant[where P = "near dst fs", OF fe near_refl])
      fix x t t' q
      assume P: "near dst fs t" and b: "?body x t = (t', q)"
      have "near dst t t'"
      proof (cases "is_dir t x")
        case True
        show ?thesis
        proof (cases "path_exists t (dst @ [path_name x])")
          case True
          with b \<open>is_dir t x\<close>
          have "merge_directories d t x (dst @ [path_name x]) = (t', q)" by (simp add: Let_def)
          from Suc.IH[OF this] show ?thesis by (rule near_deeper)
        next
          case False
          with b \<open>is_dir t x\<close>
          have "copytree d t x (dst @ [path_name x]) = (t', q)" by (simp add: Let_def)
          from copytree_near[OF this] show ?thesis by (rule near_deeper)
        qed
      next
        case False
        let ?to = "if path_exists t (dst @ [path_name x])
                    then suffix_loop t dst (stem_of (path_name (dst @ [path_name x])))
                           (suffix_of (path_name (dst @ [path_name x]))) (dst @ [path_name x]) 1
                    else dst @ [path_name x]"
        from b False have c: "copy2 t x ?to = (t', q)" by (simp add: Let_def)
        have "prefix dst ?to" by (simp add: suffix_loop_below)
        with copy2_near(1)[OF c] show ?thesis by (rule near_below)
      qed
      with P show "near dst fs t'" by (rule near_trans)
    qed
  qed
qed

lemma copytree_enough_depth:
  assumes "\<not> prefix src dst" "\<not> prefix dst src"
    and "is_dir fs src \<or> 0 < d"
    and "\<And>p. prefix src p \<Longrightarrow> path_exists fs p \<Longrightarrow> length p < length src + d"
  shows "snd (copytree d fs src dst) \<noteq> Some RecursionError"
  using assms
proof (induction d arbitrary: fs src dst)
  case 0
  then have "path_exists fs src" by (simp add: is_dir_def path_exists_def)
  with 0(4)[of src] show ?case by simp
next
  case (Suc d)
  show ?case
  proof (cases "is_dir fs src")
    case False
    with lookup_error_cases[of fs src] show ?thesis by auto
  next
    case True
    obtain fs1 r1 where mk: "makedirs fs dst = (fs1, r1)" by (cases "makedirs fs dst")
    from makedirs_near[OF mk] have p1: "near dst fs fs1" .
    from makedirs_writes[OF mk] have e1: "r1 \<noteq> Some RecursionError" by simp
    show ?thesis
    proof (cases r1)
      case (Some e)
      with True mk e1 show ?thesis by simp
    next
      case None
      let ?body = "\<lambda>(n, isd) (fs2, errs).
                   case (if isd then copytree d fs2 (src @ [n]) (dst @ [n])
                         else copy2 fs2 (src @ [n]) (dst @ [n])) of
                     (fs3, None) \<Rightarrow> ((fs3, errs), None)
                   | (fs3, Some e) \<Rightarrow>
                       if is_OSError e then ((fs3, errs @ [e]), None)
                       else ((fs3, errs), Some e)"
      let ?entries = "map (\<lambda>n. (n, is_dir fs (src @ [n]))) (os_listdir fs src)"
      obtain fs4 errs r4 where fe: "for_each ?body ?entries (fs1, []) = ((fs4, errs), r4)"
        by (cases "for_each ?body ?entries (fs1, [])") auto
      have eq: "copytree (Suc d) fs src dst =
          (case for_each ?body ?entries (fs1, []) of
               ((fs4, errs), Some e) \<Rightarrow> (fs4, Some e)
             | ((fs4, errs), None) \<Rightarrow>
                 if errs \<noteq> [] then (fs4, Some Shutil_Error) else (fs4, None))"
        using True mk None by (simp add: Let_def)
      let ?P = "\<lambda>s. near dst fs (fst s)"
      have "?P (fs4, errs) \<and> r4 \<noteq> Some RecursionError"
      proof (rule for_each_no_error[where P = ?P, OF fe])
        show "?P (fs1, [])" using p1 by simp
      next
        fix x t t' q
        assume xin: "x \<in> set ?entries" and P: "?P t" and b: "?body x t = (t', q)"
        obtain n isd where x: "x = (n, isd)" by (cases x)
        obtain fs2 es where t: "t = (fs2, es)" by (cases t)
        from xin x have isd: "isd = is_dir fs (src @ [n])" by auto
        obtain fs3 r3 where
          st: "(if isd then copytree d fs2 (src @ [n]) (dst @ [n])
                else copy2 fs2 (src @ [n]) (dst @ [n])) = (fs3, r3)"
          by (cases "(if isd then copytree d fs2 (src @ [n]) (dst @ [n])
                else copy2 fs2 (src @ [n]) (dst @ [n]))") auto
        from b have res: "(case (fs3, r3) of
                     (fs3, None) \<Rightarrow> ((fs3, es), None)
                   | (fs3, Some e) \<Rightarrow>
                       if is_OSError e then ((fs3, es @ [e]), None)
                       else ((fs3, es), Some e)) = (t', q)"
          unfolding x t st[symmetric] by simp
        then have t': "fst t' = fs3"
          by (cases r3) (auto split: if_splits)
        have same: "\<And>p. prefix src p \<Longrightarrow> node_at fs2 p = node_at fs p"
          using near_apart[OF _ Suc.prems(1,2)] P t by simp
        have "near (dst @ [n]) fs2 fs3 \<and> r3 \<noteq> Some RecursionError"
        proof (cases isd)
          case True
          with st have c: "copytree d fs2 (src @ [n]) (dst @ [n]) = (fs3, r3)" by simp
          have "snd (copytree d fs2 (src @ [n]) (dst @ [n])) \<noteq> Some RecursionError"
          proof (rule Suc.IH)
            show "\<not> prefix (src @ [n]) (dst @ [n])"
              using Suc.prems(1,2) by (auto simp: prefix_def append_eq_append_conv2 Cons_eq_append_conv)
            show "\<not> prefix (dst @ [n]) (src @ [n])"
              using Suc.prems(1,2) by (auto simp: prefix_def append_eq_append_conv2 Cons_eq_append_conv)
            show "is_dir fs2 (src @ [n]) \<or> 0 < d"
              using True isd same[of "src @ [n]"] by (simp add: is_dir_def)
          next
            fix p assume a: "prefix (src @ [n]) p" "path_exists fs2 p"
            from a(1) have sp: "prefix src p" by (rule append_prefixD)
            with a(2) same[OF sp] have "path_exists fs p" by (simp add: path_exists_def)
            from Suc.prems(4)[OF sp this] show "length p < length (src @ [n]) + d" by simp
          qed
          with c copytree_near[OF c] show ?thesis by simp
        next
          case False
          with st show ?thesis using copy2_near by auto
        qed
        then have "near dst fs2 fs3" "r3 \<noteq> Some RecursionError" by (auto intro: near_deeper)
        with P t t' res show "?P t' \<and> q \<noteq> Some RecursionError"
          by (cases r3) (auto intro: near_trans split: if_splits)
      qed
      then show ?thesis unfolding eq fe by (cases r4) auto
    qed
  qed
qed

lemma apart_child:
  assumes "\<not> prefix src dst" "\<not> prefix dst src"
  shows "\<not> prefix (src @ [n]) (dst @ [m])" and "\<not> prefix (dst @ [m]) (src @ [n])"
  using assms by (auto simp: prefix_def append_eq_append_conv2 Cons_eq_append_conv)

lemma merge_directories_enough_depth:
  assumes "\<not> prefix src dst" "\<not> prefix dst src"
    and "is_dir fs src \<or> 0 < d"
    and "\<And>p. prefix src p \<Longrightarrow> path_exists fs p \<Longrightarrow> length p < length src + d"
  shows "snd (merge_directories d fs src dst) \<noteq> Some RecursionError"
  using assms
proof (induction d arbitrary: fs src dst)
  case 0
  then have "path_exists fs src" by (simp add: is_dir_def path_exists_def)
  with 0(4)[of src] show ?case by simp
next
  case (Suc d)
  let ?body = "\<lambda>src_item fs1.
               let dest_item = dst @ [path_name src_item] in
               if is_dir fs1 src_item then
                 (if path_exists fs1 dest_item
                  then merge_directories d fs1 src_item dest_item
                  else copytree d fs1 src_item dest_item)
               else
                 copy2 fs1 src_item
                   (if path_exists fs1 dest_item
                    then suffix_loop fs1 dst (stem_of (path_name dest_item))
                           (suffix_of (path_name dest_item)) dest_item 1
                    else dest_item)"
  show ?case
  proof (cases "is_dir fs src")
    case False
    with lookup_error_cases[of fs src] show ?thesis by (auto simp: iterdir_def)
  next
    case True
    let ?items = "map (\<lambda>n. src @ [n]) (os_listdir fs src)"
    obtain fs' r where fe: "for_each ?body ?items fs = (fs', r)"
      by (cases "for_each ?body ?items fs") auto
    have eq: "merge_directories (Suc d) fs src dst = for_each ?body ?items fs"
      using True by (simp add: iterdir_def)
    have "near dst fs fs' \<and> r \<noteq> Some RecursionError"
    proof (rule for_each_no_error[where P = "near dst fs", OF fe near_refl])
      fix x t t' q
      assume xin: "x \<in> set ?items" and P: "near dst fs t" and b: "?body x t = (t', q)"
      from xin obtain n where x: "x = src @ [n]" by auto
      have same: "\<And>p. prefix src p \<Longrightarrow> node_at t p = node_at fs p"
        using near_apart[OF P Suc.prems(1,2)] by simp
      have bound: "\<And>p. prefix x p \<Longrightarrow> path_exists t p \<Longrightarrow> length p < length x + d"
      proof -
        fix p assume a: "prefix x p" "path_exists t p"
        from a(1) x have sp: "prefix src p" using append_prefixD by blast
        with a(2) same[OF sp] have "path_exists fs p" by (simp add: path_exists_def)
        from Suc.prems(4)[OF sp this] x show "length p < length x + d" by simp
      qed
      have ap: "\<not> prefix x (dst @ [path_name x])" "\<not> prefix (dst @ [path_name x]) x"
        unfolding x using apart_child[OF Suc.prems(1,2)] by auto
      have "near dst t t' \<and> q \<noteq> Some RecursionError"
      proof (cases "is_dir t x")
        case True
        show ?thesis
        proof (cases "path_exists t (dst @ [path_name x])")
          case True
          with b \<open>is_dir t x\<close>
          have m: "merge_directories d t x (dst @ [path_name x]) = (t', q)" by (simp add: Let_def)
          have "snd (merge_directories d t x (dst @ [path_name x])) \<noteq> Some RecursionError"
            by (rule Suc.IH[OF ap]) (use \<open>is_dir t x\<close> bound in auto)
          with m merge_directories_near[OF m] show ?thesis by (auto intro: near_deeper)
        next
          case False
          with b \<open>is_dir t x\<close>
          have c: "copytree d t x (dst @ [path_name x]) = (t', q)" by (simp add: Let_def)
          have "snd (copytree d t x (dst @ [path_name x])) \<noteq> Some RecursionError"
            by (rule copytree_enough_depth[OF ap]) (use \<open>is_dir t x\<close> bound in auto)
          with c copytree_near[OF c] show ?thesis by (auto intro: near_deeper)
        qed
      next
        case False
        let ?to = "if path_exists t (dst @ [path_name x])
                    then suffix_loop t dst (stem_of (path_name (dst @ [path_name x])))
                           (suffix_of (path_name (dst @ [path_name x]))) (dst @ [path_name x]) 1
                    else dst @ [path_name x]"
        from b False have c: "copy2 t x ?to = (t', q)" by (simp add: Let_def)
        have "prefix dst ?to" by (simp add: suffix_loop_below)
        with copy2_near[OF c] show ?thesis by (auto intro: near_below)
      qed
      with P show "near dst fs t' \<and> q \<noteq> Some RecursionError" by (auto intro: near_trans)
    qed
    then show ?thesis unfolding eq fe by simp
  qed
qed

section \<open>The merge keeps what is there\<close>

text \<open>
  Claim C1. Whatever \<^verbatim>\<open>import_to_darktable\<close> does (a dry run, a missing organized
  directory, the copy of a whole year, the recursive merge, an exception on the way, a
  nesting bound that runs out), a file that was in the library \<^verbatim>\<open>/data/Photography\<close>
  before the step is at the same path afterwards, with the same bytes and the same
  modification time: the step overwrites and deletes no file of the library.
\<close>

theorem merge_engine_keeps_library:
  assumes "wf_fs fs"
    and "import_to_darktable ext depth self fs = (self', fs')"
    and "prefix final_photo_dir p"
    and "node_at fs p = Some (File c m)"
  shows "node_at fs' p = Some (File c m)"
  using import_to_darktable_preserved[OF assms(2,1)] assms(4)
  by (simp add: preserved_def)

theorem merge_engine_keeps_library_witness:
  "wf_fs demo_fs
   \<and> prefix final_photo_dir [''data'', ''Photography'', ''2020'', ''03'', ''15'', ''IMG_01.jpg'']
   \<and> node_at demo_fs [''data'', ''Photography'', ''2020'', ''03'', ''15'', ''IMG_01.jpg'']
       = Some (File ''old'' 100)
   \<and> node_at (snd (import_to_darktable demo_ext 10 demo_self demo_fs))
         [''data'', ''Photography'', ''2020'', ''03'', ''15'', ''IMG_01.jpg'']
       = Some (File ''old'' 100)
   \<and> node_at (snd (import_to_darktable demo_ext 10 demo_self demo_fs))
         [''data'', ''Photography'', ''2020'', ''03'', ''15'', ''IMG_01_1.jpg'']
       = Some (File ''new'' 200)"
proof -
  let ?p = "[''data'', ''Photography'', ''2020'', ''03'', ''15'', ''IMG_01.jpg'']"
  have h1: "wf_fs demo_fs" by code_simp
  have h2: "import_to_darktable demo_ext 10 demo_self demo_fs
            = (fst (import_to_darktable demo_ext 10 demo_self demo_fs),
               snd (import_to_darktable demo_ext 10 demo_self demo_fs))"
    by simp
  have h3: "prefix final_photo_dir ?p" by code_simp
  have h4: "node_at demo_fs ?p = Some (File ''old'' 100)" by code_simp
  have h5: "node_at (snd (import_to_darktable demo_ext 10 demo_self demo_fs))
         [''data'', ''Photography'', ''2020'', ''03'', ''15'', ''IMG_01_1.jpg'']
       = Some (File ''new'' 200)" by code_simp
  from merge_engine_keeps_library[OF h1 h2 h3 h4] h1 h3 h4 h5 show ?thesis by simp
qed

text \<open>
  Claim C10. The step reads the organized tree and writes elsewhere: a file of the
  organized tree of the staging area is at its path after the step, unchanged, so the
  staging area still holds everything that went into the library.
\<close>

theorem import_keeps_organized_tree:
  assumes "wf_fs fs"
    and "import_to_darktable ext depth self fs = (self', fs')"
    and "prefix (stage_dir self @ [''organized'']) p"
    and "node_at fs p = Some (File c m)"
  shows "node_at fs' p = Some (File c m)"
  using import_to_darktable_preserved[OF assms(2,1)] assms(4)
  by (simp add: preserved_def)

theorem import_keeps_organized_tree_witness:
  "wf_fs demo_fs
   \<and> prefix (stage_dir demo_self @ [''organized''])
        [''mnt'', ''staging'', ''organized'', ''2021'', ''01'', ''02'', ''IMG_07.jpg'']
   \<and> node_at demo_fs [''mnt'', ''staging'', ''organized'', ''2021'', ''01'', ''02'', ''IMG_07.jpg'']
       = Some (File ''seven'' 300)
   \<and> node_at (snd (import_to_darktable demo_ext 10 demo_self demo_fs))
         [''mnt'', ''staging'', ''organized'', ''2021'', ''01'', ''02'', ''IMG_07.jpg'']
       = Some (File ''seven'' 300)
   \<and> node_at (snd (import_to_darktable demo_ext 10 demo_self demo_fs))
         [''data'', ''Photography'', ''2021'', ''01'', ''02'', ''IMG_07.jpg'']
       = Some (File ''seven'' 300)"
proof -
  let ?p = "[''mnt'', ''staging'', ''organized'', ''2021'', ''01'', ''02'', ''IMG_07.jpg'']"
  have h1: "wf_fs demo_fs" by code_simp
  have h2: "import_to_darktable demo_ext 10 demo_self demo_fs
            = (fst (import_to_darktable demo_ext 10 demo_self demo_fs),
               snd (import_to_darktable demo_ext 10 demo_self demo_fs))"
    by simp
  have h3: "prefix (stage_dir demo_self @ [''organized'']) ?p" by code_simp
  have h4: "node_at demo_fs ?p = Some (File ''seven'' 300)" by code_simp
  have h5: "node_at (snd (import_to_darktable demo_ext 10 demo_self demo_fs))
         [''data'', ''Photography'', ''2021'', ''01'', ''02'', ''IMG_07.jpg'']
       = Some (File ''seven'' 300)" by code_simp
  from import_keeps_organized_tree[OF h1 h2 h3 h4] h1 h3 h4 h5 show ?thesis by simp
qed

text \<open>
  Claim C7. A run of \<^verbatim>\<open>_merge_directories\<close> that completes, on a source directory
  holding a file \<open>name\<close> whose name is taken in the destination directory: afterwards
  the destination entry of that name is what it was, and the incoming file (bytes and
  modification time) is in the destination under the stem of the name, an underscore, a
  number \<open>k \<ge> 1\<close> and the suffix of the name; that path was free before the merge, and
  the names with the numbers \<open>1\<close> to \<open>k - 1\<close> are all taken: it is the first free one.
  For \<^verbatim>\<open>IMG_01.jpg\<close> in \<^verbatim>\<open>2020/03/15\<close> the new name is \<^verbatim>\<open>IMG_01_1.jpg\<close>,
  and \<^verbatim>\<open>IMG_01_2.jpg\<close> where that one is taken as well.
\<close>

theorem merge_name_collision:
  assumes wf: "wf_fs fs"
    and run: "merge_directories d fs src_dir dest_dir = (fs', None)"
    and src: "node_at fs (src_dir @ [name]) = Some (File c m)"
    and col: "path_exists fs (dest_dir @ [name])"
  shows "node_at fs' (dest_dir @ [name]) = node_at fs (dest_dir @ [name])
     \<and> (\<exists>k\<ge>1.
          node_at fs' (dest_dir @ [stem_of name @ ''_'' @ str_nat k @ suffix_of name]) = Some (File c m)
        \<and> \<not> path_exists fs (dest_dir @ [stem_of name @ ''_'' @ str_nat k @ suffix_of name])
        \<and> (\<forall>j. 1 \<le> j \<and> j < k \<longrightarrow>
              path_exists fs' (dest_dir @ [stem_of name @ ''_'' @ str_nat j @ suffix_of name])))"
proof -
  let ?n = "\<lambda>k. dest_dir @ [stem_of name @ ''_'' @ str_nat k @ suffix_of name]"
  obtain d' where d: "d = Suc d'" using run by (cases d) auto
  let ?body = "\<lambda>src_item fs1.
               let dest_item = dest_dir @ [path_name src_item] in
               if is_dir fs1 src_item then
                 (if path_exists fs1 dest_item
                  then merge_directories d' fs1 src_item dest_item
                  else copytree d' fs1 src_item dest_item)
               else
                 copy2 fs1 src_item
                   (if path_exists fs1 dest_item
                    then suffix_loop fs1 dest_dir (stem_of (path_name dest_item))
                           (suffix_of (path_name dest_item)) dest_item 1
                    else dest_item)"
  let ?items = "map (\<lambda>n. src_dir @ [n]) (os_listdir fs src_dir)"
  have dir: "is_dir fs src_dir"
    using run d by (auto simp: iterdir_def split: if_splits)
  then have it: "iterdir fs src_dir = Inr ?items" by (simp add: iterdir_def)
  have fe: "for_each ?body ?items fs = (fs', None)"
    using run unfolding d by (simp add: it)
  have "src_dir @ [name] \<in> set ?items"
    using os_listdir_member[OF src] by simp
  from for_each_split[OF fe this] obtain ys zs t t' where
    sp: "for_each ?body ys fs = (t, None)" "?body (src_dir @ [name]) t = (t', None)"
        "for_each ?body zs t' = (fs', None)" by blast
  from merge_loop_preserved[OF sp(1) wf] have pt: "preserved fs t" and wt: "wf_fs t" by auto
  from pt src have srct: "node_at t (src_dir @ [name]) = Some (File c m)"
    by (simp add: preserved_def)
  from pt col have colt: "path_exists t (dest_dir @ [name])"
    by (rule preserved_exists)
  from suffix_loop_search[OF colt, of 1 dest_dir "stem_of name" "suffix_of name"]
  obtain k where k: "k \<ge> 1"
     "suffix_loop t dest_dir (stem_of name) (suffix_of name) (dest_dir @ [name]) 1 = ?n k"
     "\<not> path_exists t (?n k)"
     "\<forall>j. 1 \<le> j \<and> j < k \<longrightarrow> path_exists t (?n j)" by blast
  from srct have nd: "\<not> is_dir t (src_dir @ [name])" by (simp add: is_dir_def)
  have cp: "copy2 t (src_dir @ [name]) (?n k) = (t', None)"
    using sp(2) nd colt k(2) by (simp add: Let_def path_name_def)
  from copy2_new_file[OF cp k(3) srct] have t': "t' = write_node t (?n k) (File c m)" .
  from copy2_preserved[OF cp k(3)] have ptt': "preserved t t'" .
  from copy2_wf[OF cp wt] have wt': "wf_fs t'" .
  from merge_loop_preserved[OF sp(3) wt'] have pt': "preserved t' fs'" by simp
  have a: "node_at fs' (?n k) = Some (File c m)"
    using pt' t' by (simp add: preserved_def node_at_write)
  have b: "\<not> path_exists fs (?n k)"
    using k(3) preserved_exists[OF pt] by blast
  have c: "\<forall>j. 1 \<le> j \<and> j < k \<longrightarrow> path_exists fs' (?n j)"
    using k(4) preserved_exists[OF ptt'] preserved_exists[OF pt'] by blast
  from merge_directories_preserved[OF run wf] col
  have e: "node_at fs' (dest_dir @ [name]) = node_at fs (dest_dir @ [name])"
    by (auto simp: preserved_def path_exists_def)
  from a b c e k(1) show ?thesis by blast
qed

theorem merge_name_collision_witness:
  "wf_fs demo_fs
   \<and> snd (merge_directories 10 demo_fs
         [''mnt'', ''staging'', ''organized'', ''2020'', ''03'', ''15'']
         [''data'', ''Photography'', ''2020'', ''03'', ''15'']) = None
   \<and> node_at demo_fs [''mnt'', ''staging'', ''organized'', ''2020'', ''03'', ''15'', ''IMG_01.jpg'']
       = Some (File ''new'' 200)
   \<and> path_exists demo_fs [''data'', ''Photography'', ''2020'', ''03'', ''15'', ''IMG_01.jpg'']
   \<and> stem_of ''IMG_01.jpg'' = ''IMG_01'' \<and> suffix_of ''IMG_01.jpg'' = ''.jpg''
   \<and> str_nat 1 = ''1''
   \<and> node_at (fst (merge_directories 10 demo_fs
         [''mnt'', ''staging'', ''organized'', ''2020'', ''03'', ''15'']
         [''data'', ''Photography'', ''2020'', ''03'', ''15'']))
         [''data'', ''Photography'', ''2020'', ''03'', ''15'', ''IMG_01.jpg'']
       = Some (File ''old'' 100)
   \<and> node_at (fst (merge_directories 10 demo_fs
         [''mnt'', ''staging'', ''organized'', ''2020'', ''03'', ''15'']
         [''data'', ''Photography'', ''2020'', ''03'', ''15'']))
         [''data'', ''Photography'', ''2020'', ''03'', ''15'', ''IMG_01_1.jpg'']
       = Some (File ''new'' 200)
   \<and> (\<exists>k\<ge>1.
         node_at (fst (merge_directories 10 demo_fs
           [''mnt'', ''staging'', ''organized'', ''2020'', ''03'', ''15'']
           [''data'', ''Photography'', ''2020'', ''03'', ''15'']))
           ([''data'', ''Photography'', ''2020'', ''03'', ''15'']
              @ [stem_of ''IMG_01.jpg'' @ ''_'' @ str_nat k @ suffix_of ''IMG_01.jpg''])
         = Some (File ''new'' 200))
   \<and> wf_fs taken_fs
   \<and> snd (merge_directories 10 taken_fs
         [''mnt'', ''staging'', ''organized'', ''2020'', ''03'', ''15'']
         [''data'', ''Photography'', ''2020'', ''03'', ''15'']) = None
   \<and> node_at (fst (merge_directories 10 taken_fs
         [''mnt'', ''staging'', ''organized'', ''2020'', ''03'', ''15'']
         [''data'', ''Photography'', ''2020'', ''03'', ''15'']))
         [''data'', ''Photography'', ''2020'', ''03'', ''15'', ''IMG_01.jpg'']
       = Some (File ''old'' 100)
   \<and> node_at (fst (merge_directories 10 taken_fs
         [''mnt'', ''staging'', ''organized'', ''2020'', ''03'', ''15'']
         [''data'', ''Photography'', ''2020'', ''03'', ''15'']))
         [''data'', ''Photography'', ''2020'', ''03'', ''15'', ''IMG_01_1.jpg'']
       = Some (File ''first'' 150)
   \<and> node_at (fst (merge_directories 10 taken_fs
         [''mnt'', ''staging'', ''organized'', ''2020'', ''03'', ''15'']
         [''data'', ''Photography'', ''2020'', ''03'', ''15'']))
         [''data'', ''Photography'', ''2020'', ''03'', ''15'', ''IMG_01_2.jpg'']
       = Some (File ''new'' 200)
   \<and> (\<exists>k\<ge>1.
         node_at (fst (merge_directories 10 taken_fs
           [''mnt'', ''staging'', ''organized'', ''2020'', ''03'', ''15'']
           [''data'', ''Photography'', ''2020'', ''03'', ''15'']))
           ([''data'', ''Photography'', ''2020'', ''03'', ''15'']
              @ [stem_of ''IMG_01.jpg'' @ ''_'' @ str_nat k @ suffix_of ''IMG_01.jpg''])
         = Some (File ''new'' 200)
       \<and> \<not> path_exists taken_fs
           ([''data'', ''Photography'', ''2020'', ''03'', ''15'']
              @ [stem_of ''IMG_01.jpg'' @ ''_'' @ str_nat k @ suffix_of ''IMG_01.jpg'']))"
proof -
  let ?S = "[''mnt'', ''staging'', ''organized'', ''2020'', ''03'', ''15'']"
  let ?D = "[''data'', ''Photography'', ''2020'', ''03'', ''15'']"
  have h1: "wf_fs demo_fs" by code_simp
  have n: "snd (merge_directories 10 demo_fs ?S ?D) = None" by code_simp
  then have h2: "merge_directories 10 demo_fs ?S ?D = (fst (merge_directories 10 demo_fs ?S ?D), None)"
    by (metis prod.collapse)
  have h3: "node_at demo_fs (?S @ [''IMG_01.jpg'']) = Some (File ''new'' 200)" by code_simp
  have h4: "path_exists demo_fs (?D @ [''IMG_01.jpg''])" by code_simp
  have e1: "stem_of ''IMG_01.jpg'' = ''IMG_01''" by code_simp
  have e2: "suffix_of ''IMG_01.jpg'' = ''.jpg''" by code_simp
  have e3: "str_nat 1 = ''1''" by code_simp
  have e4: "node_at (fst (merge_directories 10 demo_fs ?S ?D)) (?D @ [''IMG_01.jpg''])
       = Some (File ''old'' 100)" by code_simp
  have e5: "node_at (fst (merge_directories 10 demo_fs ?S ?D)) (?D @ [''IMG_01_1.jpg''])
       = Some (File ''new'' 200)" by code_simp
  from merge_name_collision[OF h1 h2 h3 h4]
  have a: "\<exists>k\<ge>1. node_at (fst (merge_directories 10 demo_fs ?S ?D))
           (?D @ [stem_of ''IMG_01.jpg'' @ ''_'' @ str_nat k @ suffix_of ''IMG_01.jpg''])
         = Some (File ''new'' 200)" by blast
  have g1: "wf_fs taken_fs" by code_simp
  have m: "snd (merge_directories 10 taken_fs ?S ?D) = None" by code_simp
  then have g2: "merge_directories 10 taken_fs ?S ?D = (fst (merge_directories 10 taken_fs ?S ?D), None)"
    by (metis prod.collapse)
  have g3: "node_at taken_fs (?S @ [''IMG_01.jpg'']) = Some (File ''new'' 200)" by code_simp
  have g4: "path_exists taken_fs (?D @ [''IMG_01.jpg''])" by code_simp
  have f4: "node_at (fst (merge_directories 10 taken_fs ?S ?D)) (?D @ [''IMG_01.jpg''])
       = Some (File ''old'' 100)" by code_simp
  have f5: "node_at (fst (merge_directories 10 taken_fs ?S ?D)) (?D @ [''IMG_01_1.jpg''])
       = Some (File ''first'' 150)" by code_simp
  have f6: "node_at (fst (merge_directories 10 taken_fs ?S ?D)) (?D @ [''IMG_01_2.jpg''])
       = Some (File ''new'' 200)" by code_simp
  from merge_name_collision[OF g1 g2 g3 g4]
  have b: "\<exists>k\<ge>1. node_at (fst (merge_directories 10 taken_fs ?S ?D))
           (?D @ [stem_of ''IMG_01.jpg'' @ ''_'' @ str_nat k @ suffix_of ''IMG_01.jpg''])
         = Some (File ''new'' 200)
       \<and> \<not> path_exists taken_fs
           (?D @ [stem_of ''IMG_01.jpg'' @ ''_'' @ str_nat k @ suffix_of ''IMG_01.jpg''])" by blast
  from h1 n h3 h4 e1 e2 e3 e4 e5 have c: "wf_fs demo_fs
   \<and> snd (merge_directories 10 demo_fs ?S ?D) = None
   \<and> node_at demo_fs (?S @ [''IMG_01.jpg'']) = Some (File ''new'' 200)
   \<and> path_exists demo_fs (?D @ [''IMG_01.jpg''])
   \<and> stem_of ''IMG_01.jpg'' = ''IMG_01'' \<and> suffix_of ''IMG_01.jpg'' = ''.jpg''
   \<and> str_nat 1 = ''1''
   \<and> node_at (fst (merge_directories 10 demo_fs ?S ?D)) (?D @ [''IMG_01.jpg'']) = Some (File ''old'' 100)
   \<and> node_at (fst (merge_directories 10 demo_fs ?S ?D)) (?D @ [''IMG_01_1.jpg'']) = Some (File ''new'' 200)"
    by simp
  from g1 m f4 f5 f6 have d: "wf_fs taken_fs
   \<and> snd (merge_directories 10 taken_fs ?S ?D) = None
   \<and> node_at (fst (merge_directories 10 taken_fs ?S ?D)) (?D @ [''IMG_01.jpg'']) = Some (File ''old'' 100)
   \<and> node_at (fst (merge_directories 10 taken_fs ?S ?D)) (?D @ [''IMG_01_1.jpg'']) = Some (File ''first'' 150)
   \<and> node_at (fst (merge_directories 10 taken_fs ?S ?D)) (?D @ [''IMG_01_2.jpg'']) = Some (File ''new'' 200)"
    by simp
  from c a d b show ?thesis by simp
qed

section \<open>Duplicate resolution: the claims\<close>

text \<open>
  Claim C2. The detector's contract and the prepared staging area are the hypotheses:
  the quarantine directory \<^verbatim>\<open>stage_dir/duplicates\<close> is a directory, the paths the detector
  lists are pairwise distinct regular files outside the quarantine directory, and the
  quarantine directory holds no directory under the name of a file to move. Then, for
  every group of two or more members: the first member is what it was, at its path; it
  is the only member still at its path; every other member has a regular file under its
  base name in the quarantine directory (the member itself, bytes and time, when no two
  moved files share a base name); all listed files after the first were moved; and a
  second run on the same output changes nothing, so the first member is neither moved nor
  deleted by it.
\<close>

theorem duplicate_groups_resolved:
  assumes wf: "wf_fs fs"
    and qd: "is_dir fs (stage_dir self @ [''duplicates''])"
    and dist: "distinct (concat (dup_groups out))"
    and files: "\<forall>p\<in>set (concat (dup_groups out)).
                  is_file fs p \<and> \<not> prefix (stage_dir self @ [''duplicates'']) p"
    and free: "\<forall>p\<in>set (concat (map tl (dup_groups out))).
                  \<not> is_dir fs (stage_dir self @ [''duplicates'', path_name p])"
    and run: "handle_duplicates depth self fs out = (fs', moved)"
    and g: "g \<in> set (dup_groups out)"
  shows "node_at fs' (hd g) = node_at fs (hd g)
       \<and> filter (path_exists fs') g = [hd g]
       \<and> (\<forall>p\<in>set (tl g). is_file fs' (stage_dir self @ [''duplicates'', path_name p]))
       \<and> (inj_on path_name (set (concat (map tl (dup_groups out)))) \<longrightarrow>
            (\<forall>p\<in>set (tl g). node_at fs' (stage_dir self @ [''duplicates'', path_name p]) = node_at fs p))
       \<and> moved = length (concat (map tl (dup_groups out)))
       \<and> handle_duplicates depth self fs' out = (fs', 0)"
proof -
  define q where "q = stage_dir self @ [''duplicates'']"
  define ps where "ps = concat (map tl (dup_groups out))"
  have qd': "is_dir fs q" using qd by (simp add: q_def)
  have root: "is_dir fs []"
    using wf_root_dir[OF wf, of q] qd' by (simp add: is_dir_def path_exists_def q_def)
  have sub: "set ps \<subseteq> set (concat (dup_groups out))"
    unfolding ps_def by (rule set_concat_tl)
  have mov: "\<forall>p\<in>set ps. movable q fs p"
  proof
    fix p assume p: "p \<in> set ps"
    with sub have pin: "p \<in> set (concat (dup_groups out))" by blast
    with files have f: "is_file fs p" "\<not> prefix q p" by (auto simp: q_def)
    from pin obtain g' where "g' \<in> set (dup_groups out)" "p \<in> set g'" by auto
    with dup_groups_member(2)[of g' out] obtain s where s: "p = Path s" by blast
    from f(1) root have "p \<noteq> []" by (auto simp: is_file_def is_dir_def)
    from path_join_name[OF s this] have "path_join q (path_name p) = q @ [path_name p]" .
    moreover from free p have "\<not> is_dir fs (q @ [path_name p])" by (auto simp: ps_def q_def)
    ultimately show "movable q fs p" using f by (simp add: movable_def)
  qed
  have dps: "distinct ps" unfolding ps_def by (rule distinct_concat_tl[OF dist])
  from quarantine_fold[OF qd' dps mov, of depth 0]
  obtain fs1 where f1: "fold (quarantine_path depth q) ps (fs, 0) = (fs1, length ps)"
    and q1: "quarantined q fs ps fs1" by auto
  from run f1 have eq: "fs' = fs1" "moved = length ps"
    by (simp_all add: handle_duplicates_fold q_def ps_def)
  have q1a: "\<And>x. x \<notin> set ps \<Longrightarrow> x \<notin> (\<lambda>p. q @ [path_name p]) ` set ps
               \<Longrightarrow> node_at fs' x = node_at fs x"
    using q1 by (simp add: quarantined_def eq)
  have q1b: "\<And>p. p \<in> set ps \<Longrightarrow> node_at fs' p = None"
    using q1 by (simp add: quarantined_def eq)
  have q1c: "\<And>p. p \<in> set ps \<Longrightarrow> is_file fs' (q @ [path_name p])"
    using q1 by (simp add: quarantined_def eq)
  have q1d: "\<And>p. inj_on path_name (set ps) \<Longrightarrow> p \<in> set ps
                \<Longrightarrow> node_at fs' (q @ [path_name p]) = node_at fs p"
    using q1 by (simp add: quarantined_def eq)
  from dup_groups_member(1)[OF g] have gne: "g \<noteq> []" .
  then have gc: "g = hd g # tl g" by simp
  have hg: "hd g \<in> set (concat (dup_groups out))" using g gne by (auto intro: hd_in_set)
  have h1: "hd g \<notin> set ps" unfolding ps_def using hd_not_in_tls[OF dist g gne] .
  have h2: "hd g \<notin> (\<lambda>p. q @ [path_name p]) ` set ps"
  proof
    assume "hd g \<in> (\<lambda>p. q @ [path_name p]) ` set ps"
    then have "prefix q (hd g)" by auto
    with files hg show False by (auto simp: q_def)
  qed
  from q1a[OF h1 h2] have a: "node_at fs' (hd g) = node_at fs (hd g)" .
  have tlsub: "set (tl g) \<subseteq> set ps" using g by (auto simp: ps_def)
  have gone: "\<forall>p\<in>set (tl g). \<not> path_exists fs' p"
    using q1b tlsub by (auto simp: path_exists_def)
  have "path_exists fs' (hd g)"
    using a files hg by (auto simp: path_exists_def is_file_def split: option.splits)
  with gone have b: "filter (path_exists fs') g = [hd g]"
    by (subst gc) (simp add: filter_empty_conv)
  have c: "\<forall>p\<in>set (tl g). is_file fs' (stage_dir self @ [''duplicates'', path_name p])"
    using q1c tlsub by (auto simp: q_def)
  have d: "inj_on path_name (set (concat (map tl (dup_groups out)))) \<longrightarrow>
            (\<forall>p\<in>set (tl g). node_at fs' (stage_dir self @ [''duplicates'', path_name p]) = node_at fs p)"
  proof (intro impI ballI)
    fix p assume "inj_on path_name (set (concat (map tl (dup_groups out))))" "p \<in> set (tl g)"
    then have "inj_on path_name (set ps)" "p \<in> set ps" using tlsub by (auto simp: ps_def)
    from q1d[OF this]
    show "node_at fs' (stage_dir self @ [''duplicates'', path_name p]) = node_at fs p"
      by (simp add: q_def)
  qed
  have "\<forall>p\<in>set ps. \<not> path_exists fs' p"
    using q1b by (auto simp: path_exists_def)
  from quarantine_fold_absent[OF this]
  have e: "handle_duplicates depth self fs' out = (fs', 0)"
    by (simp add: handle_duplicates_fold q_def ps_def)
  have m: "moved = length (concat (map tl (dup_groups out)))" using eq(2) by (simp add: ps_def)
  from a b c d e m show ?thesis by blast
qed

theorem duplicate_groups_resolved_witness:
  "dup_groups detector_out =
     [[[''mnt'', ''staging'', ''raw_photos'', ''A_img001.cr2''],
       [''mnt'', ''staging'', ''raw_photos'', ''B_photo.cr2'']]]
   \<and> wf_fs staged_fs
   \<and> is_dir staged_fs (stage_dir demo_self @ [''duplicates''])
   \<and> node_at (fst (handle_duplicates 10 demo_self staged_fs detector_out))
         [''mnt'', ''staging'', ''raw_photos'', ''A_img001.cr2''] = Some (File ''RAW'' 10)
   \<and> filter (path_exists (fst (handle_duplicates 10 demo_self staged_fs detector_out)))
         [[''mnt'', ''staging'', ''raw_photos'', ''A_img001.cr2''],
          [''mnt'', ''staging'', ''raw_photos'', ''B_photo.cr2'']]
       = [[''mnt'', ''staging'', ''raw_photos'', ''A_img001.cr2'']]
   \<and> is_file (fst (handle_duplicates 10 demo_self staged_fs detector_out))
         [''mnt'', ''staging'', ''duplicates'', ''B_photo.cr2'']
   \<and> node_at (fst (handle_duplicates 10 demo_self staged_fs detector_out))
         [''mnt'', ''staging'', ''duplicates'', ''B_photo.cr2''] = Some (File ''RAW'' 20)
   \<and> snd (handle_duplicates 10 demo_self staged_fs detector_out) = 1
   \<and> handle_duplicates 10 demo_self
         (fst (handle_duplicates 10 demo_self staged_fs detector_out)) detector_out
       = (fst (handle_duplicates 10 demo_self staged_fs detector_out), 0)"
proof -
  let ?A = "[''mnt'', ''staging'', ''raw_photos'', ''A_img001.cr2'']"
  let ?B = "[''mnt'', ''staging'', ''raw_photos'', ''B_photo.cr2'']"
  let ?fs' = "fst (handle_duplicates 10 demo_self staged_fs detector_out)"
  have dg: "dup_groups detector_out = [[?A, ?B]]" by code_simp
  have h1: "wf_fs staged_fs" by code_simp
  have h2: "is_dir staged_fs (stage_dir demo_self @ [''duplicates''])" by code_simp
  have h3: "distinct (concat (dup_groups detector_out))" unfolding dg by simp
  have h4: "\<forall>p\<in>set (concat (dup_groups detector_out)).
              is_file staged_fs p \<and> \<not> prefix (stage_dir demo_self @ [''duplicates'']) p"
    unfolding dg by code_simp
  have h5: "\<forall>p\<in>set (concat (map tl (dup_groups detector_out))).
              \<not> is_dir staged_fs (stage_dir demo_self @ [''duplicates'', path_name p])"
    unfolding dg by code_simp
  have h6: "handle_duplicates 10 demo_self staged_fs detector_out
              = (?fs', snd (handle_duplicates 10 demo_self staged_fs detector_out))" by simp
  have h7: "[?A, ?B] \<in> set (dup_groups detector_out)" unfolding dg by simp
  have inj: "inj_on path_name (set (concat (map tl (dup_groups detector_out))))"
    unfolding dg by simp
  from duplicate_groups_resolved[OF h1 h2 h3 h4 h5 h6 h7] inj
  have "node_at ?fs' ?A = node_at staged_fs ?A"
    and "filter (path_exists ?fs') [?A, ?B] = [?A]"
    and "is_file ?fs' (stage_dir demo_self @ [''duplicates'', path_name ?B])"
    and "node_at ?fs' (stage_dir demo_self @ [''duplicates'', path_name ?B]) = node_at staged_fs ?B"
    and "snd (handle_duplicates 10 demo_self staged_fs detector_out)
           = length (concat (map tl (dup_groups detector_out)))"
    and "handle_duplicates 10 demo_self ?fs' detector_out = (?fs', 0)"
    by simp_all
  moreover have "node_at staged_fs ?A = Some (File ''RAW'' 10)" by code_simp
  moreover have "node_at staged_fs ?B = Some (File ''RAW'' 20)" by code_simp
  moreover have "stage_dir demo_self @ [''duplicates'', path_name ?B]
                   = [''mnt'', ''staging'', ''duplicates'', ''B_photo.cr2'']" by code_simp
  ultimately show ?thesis using dg h1 h2 by simp
qed

text \<open>
  Claim C3, at an input where it fails. Two groups, each with a duplicate named
  \<^verbatim>\<open>x.cr2\<close> in another subdirectory: both files are moved (the counter is 2), the
  second move replaces the file the first one put into the quarantine directory, and
  afterwards the quarantine directory holds one file, the second. The quarantined copy of
  the first group is gone.
\<close>

theorem quarantine_collision_loses_copy:
  "snd (handle_duplicates 10 demo_self collide_fs collide_out) = 2
   \<and> os_listdir (fst (handle_duplicates 10 demo_self collide_fs collide_out))
         [''mnt'', ''staging'', ''duplicates''] = [''x.cr2'']
   \<and> node_at (fst (handle_duplicates 10 demo_self collide_fs collide_out))
         [''mnt'', ''staging'', ''duplicates'', ''x.cr2''] = Some (File ''TWO'' 40)
   \<and> node_at (fst (handle_duplicates 10 demo_self collide_fs collide_out))
         [''mnt'', ''staging'', ''raw_photos'', ''old1'', ''x.cr2''] = None
   \<and> node_at (fst (handle_duplicates 10 demo_self collide_fs collide_out))
         [''mnt'', ''staging'', ''raw_photos'', ''old2'', ''x.cr2''] = None
   \<and> filter (\<lambda>p. node_at (fst (handle_duplicates 10 demo_self collide_fs collide_out)) p
                     = Some (File ''ONE'' 30))
        (map fst (fst (handle_duplicates 10 demo_self collide_fs collide_out))) = []"
  by code_simp

text \<open>
  Claim C5, as amended. When the detector returns 0, \<^verbatim>\<open>duplicates_found\<close> is the number
  of duplicates the detector reported (for every group that is not blank, the number of
  its line feeds), set before any file is moved. The number of files moved is at most
  that; it is smaller when a listed path does not exist or its move fails, as the
  counterexample shows.
\<close>

theorem duplicates_found_counts_reported:
  assumes "\<not> dry_run self"
    and "run_jdupes ext fs (stage_dir self @ [''raw_photos''])
           (stage_dir self @ [''processed_photos'']) = Completed 0 out err"
    and "run_jdupes_deduplication ext depth self fs = (self', fs', r)"
  shows "duplicates_found (stats self') = reported_duplicates out
       \<and> fs' = fst (handle_duplicates depth self' fs out)
       \<and> snd (handle_duplicates depth self' fs out) \<le> duplicates_found (stats self')"
proof -
  from assms have a: "duplicates_found (stats self') = reported_duplicates out"
    and b: "fs' = fst (handle_duplicates depth self' fs out)"
    by (auto simp: run_jdupes_deduplication_def Let_def reported_duplicates_def
                   total_duplicates_reported[simplified])
  with handle_duplicates_moved[of depth self' fs out] show ?thesis by simp
qed

theorem duplicates_found_counts_reported_witness:
  "\<not> dry_run demo_self
   \<and> run_jdupes (detector_ext detector_out) staged_fs (stage_dir demo_self @ [''raw_photos''])
         (stage_dir demo_self @ [''processed_photos'']) = Completed 0 detector_out []
   \<and> reported_duplicates detector_out = 1
   \<and> duplicates_found (stats (fst (run_jdupes_deduplication (detector_ext detector_out) 10
         demo_self staged_fs))) = 1
   \<and> snd (handle_duplicates 10
          (fst (run_jdupes_deduplication (detector_ext detector_out) 10 demo_self staged_fs))
          staged_fs detector_out) \<le> 1"
proof -
  let ?r = "run_jdupes_deduplication (detector_ext detector_out) 10 demo_self staged_fs"
  have h1: "\<not> dry_run demo_self" by code_simp
  have h2: "run_jdupes (detector_ext detector_out) staged_fs (stage_dir demo_self @ [''raw_photos''])
         (stage_dir demo_self @ [''processed_photos'']) = Completed 0 detector_out []"
    by (simp add: detector_ext_def)
  have h3: "?r = (fst ?r, fst (snd ?r), snd (snd ?r))" by simp
  have e: "reported_duplicates detector_out = 1" by code_simp
  from duplicates_found_counts_reported[OF h1 h2 h3] e h1 h2 show ?thesis by simp
qed

theorem duplicates_found_counterexample:
  "duplicates_found (stats (fst (run_jdupes_deduplication (detector_ext detector_out_gone) 10
       demo_self staged_fs))) = 2
   \<and> snd (handle_duplicates 10 demo_self staged_fs detector_out_gone) = 1
   \<and> os_listdir (fst (snd (run_jdupes_deduplication (detector_ext detector_out_gone) 10
       demo_self staged_fs))) [''mnt'', ''staging'', ''duplicates''] = [''B_photo.cr2'']"
  by code_simp

section \<open>The organizer: the claims\<close>

text \<open>
  Claim C4. For every file the organizer places (every run of the body of its loop that
  completes, on a regular file): the file is then under
  \<^verbatim>\<open>organized/YYYY/MM/DD\<close> with its own name (inside a directory of that name, should
  one be there), where year, month and day are those of its resolved capture date
  \<open>resolved_capture_date\<close>: the date parsed from the reader's original-capture field
  when that succeeds, the modification time of the file otherwise. It is no longer at its
  staged path. By \<open>capture_line_date\<close> a reader that prints a valid capture time in the
  format \<^verbatim>\<open>YYYY:MM:DD HH:MM:SS\<close> resolves to that time, and by \<open>no_capture_field_mtime\<close> a
  reader that fails or prints no such field resolves to the modification time. A file
  with the capture time \<^verbatim>\<open>2019:07:04 10:15:00\<close> and a modification time in 2023 goes
  to \<^verbatim>\<open>2019/07/04\<close>.
\<close>

theorem organized_under_capture_date:
  assumes isf: "is_file fs photo_file"
    and run: "organize_file ext depth fs organized_dir photo_file = (fs', None)"
  shows "\<exists>t dest.
           resolved_capture_date ext fs photo_file = Some t
         \<and> (dest = organized_dir @ [str_nat (year t), pad2 (month t), pad2 (day t),
                                     path_name photo_file]
            \<or> dest = organized_dir @ [str_nat (year t), pad2 (month t), pad2 (day t),
                                     path_name photo_file, path_name photo_file])
         \<and> node_at fs' dest = node_at fs photo_file
         \<and> (photo_file = dest \<or> node_at fs' photo_file = None)"
proof -
  from isf obtain c m where f: "node_at fs photo_file = Some (File c m)"
    by (auto simp: is_file_def split: option.splits node.splits)
  from run obtain t where t: "get_photo_date ext fs photo_file = Inr t"
    by (cases "get_photo_date ext fs photo_file") (auto simp: organize_file_def)
  let ?dd = "day_dir_of organized_dir t"
  obtain fs1 r1 where mk: "mkdir_parents fs ?dd = (fs1, r1)" by (cases "mkdir_parents fs ?dd")
  with run t have r1: "r1 = None"
    by (cases r1) (auto simp: organize_file_def Let_def)
  with run t mk have mv: "shutil_move depth fs1 photo_file (?dd @ [path_name photo_file]) = (fs', None)"
    by (simp add: organize_file_def Let_def)
  from mkdir_parents_preserved[OF mk] f have f1: "node_at fs1 photo_file = Some (File c m)"
    by (simp add: preserved_def)
  from shutil_move_file_result[OF f1 mv] obtain real where
    real: "real = ?dd @ [path_name photo_file] \<or> real = (?dd @ [path_name photo_file]) @ [path_name photo_file]"
      "node_at fs' real = Some (File c m)" "photo_file = real \<or> node_at fs' photo_file = None"
    by blast
  from get_photo_date_resolved[OF isf t] have rs: "resolved_capture_date ext fs photo_file = Some t" .
  from real f rs show ?thesis
    by (auto simp: day_dir_of_def)
qed

theorem organized_under_capture_date_witness:
  "is_file staged_fs [''mnt'', ''staging'', ''raw_photos'', ''A_img001.cr2'']
   \<and> snd (organize_file exif_ext 10 staged_fs [''mnt'', ''staging'', ''organized'']
         [''mnt'', ''staging'', ''raw_photos'', ''A_img001.cr2'']) = None
   \<and> year (fromtimestamp exif_ext 10) = 2023
   \<and> resolved_capture_date exif_ext staged_fs [''mnt'', ''staging'', ''raw_photos'', ''A_img001.cr2'']
       = Some \<lparr>year = 2019, month = 7, day = 4, hour = 10, minute = 15, second = 0\<rparr>
   \<and> node_at (fst (organize_file exif_ext 10 staged_fs [''mnt'', ''staging'', ''organized'']
         [''mnt'', ''staging'', ''raw_photos'', ''A_img001.cr2'']))
         [''mnt'', ''staging'', ''organized'', ''2019'', ''07'', ''04'', ''A_img001.cr2'']
       = Some (File ''RAW'' 10)
   \<and> node_at (fst (organize_file exif_ext 10 staged_fs [''mnt'', ''staging'', ''organized'']
         [''mnt'', ''staging'', ''raw_photos'', ''A_img001.cr2'']))
         [''mnt'', ''staging'', ''raw_photos'', ''A_img001.cr2''] = None
   \<and> (\<exists>t dest.
         resolved_capture_date exif_ext staged_fs [''mnt'', ''staging'', ''raw_photos'', ''A_img001.cr2'']
           = Some t
       \<and> prefix ([''mnt'', ''staging'', ''organized''] @ [str_nat (year t), pad2 (month t), pad2 (day t)]) dest
       \<and> node_at (fst (organize_file exif_ext 10 staged_fs [''mnt'', ''staging'', ''organized'']
             [''mnt'', ''staging'', ''raw_photos'', ''A_img001.cr2''])) dest
           = Some (File ''RAW'' 10))"
proof -
  let ?A = "[''mnt'', ''staging'', ''raw_photos'', ''A_img001.cr2'']"
  let ?O = "[''mnt'', ''staging'', ''organized'']"
  let ?r = "organize_file exif_ext 10 staged_fs ?O ?A"
  have h1: "is_file staged_fs ?A" by code_simp
  have n: "snd ?r = None" by code_simp
  then have h2: "?r = (fst ?r, None)" by (metis prod.collapse)
  have e1: "year (fromtimestamp exif_ext 10) = 2023" by code_simp
  have e2: "resolved_capture_date exif_ext staged_fs ?A
       = Some \<lparr>year = 2019, month = 7, day = 4, hour = 10, minute = 15, second = 0\<rparr>"
    by code_simp
  have e3: "node_at (fst ?r) [''mnt'', ''staging'', ''organized'', ''2019'', ''07'', ''04'', ''A_img001.cr2'']
       = Some (File ''RAW'' 10)" by code_simp
  have e4: "node_at (fst ?r) ?A = None" by code_simp
  have e5: "node_at staged_fs ?A = Some (File ''RAW'' 10)" by code_simp
  from organized_under_capture_date[OF h1 h2] obtain t dest where
    td: "resolved_capture_date exif_ext staged_fs ?A = Some t"
        "dest = ?O @ [str_nat (year t), pad2 (month t), pad2 (day t), path_name ?A]
         \<or> dest = ?O @ [str_nat (year t), pad2 (month t), pad2 (day t), path_name ?A, path_name ?A]"
        "node_at (fst ?r) dest = node_at staged_fs ?A" by blast
  from td(2) have "prefix (?O @ [str_nat (year t), pad2 (month t), pad2 (day t)]) dest"
    by (auto simp: prefix_def)
  with td(1,3) e5 have "\<exists>t dest.
         resolved_capture_date exif_ext staged_fs ?A = Some t
       \<and> prefix (?O @ [str_nat (year t), pad2 (month t), pad2 (day t)]) dest
       \<and> node_at (fst ?r) dest = Some (File ''RAW'' 10)" by auto
  with h1 n e1 e2 e3 e4 show ?thesis by simp
qed

text \<open>
  Claim C6, at inputs where it fails. In the organizer, a regular file is in the way of
  the year directory of \<^verbatim>\<open>A_img001.cr2\<close>: the failure is logged, the file stays where
  it was, the next files are organized (the loop goes on), and the error list of the
  statistics is still empty. In the duplicate resolver, the move of \<^verbatim>\<open>B_photo.cr2\<close>
  fails on an entry of that name in the quarantine directory: the file stays, the
  statistic counts one duplicate, and the error list is still empty.
\<close>

theorem move_failures_not_recorded:
  "errors (stats (fst (organize_by_date exif_ext 10 demo_self stray_fs))) = []
   \<and> fst (snd (snd (organize_by_date exif_ext 10 demo_self stray_fs)))
       = [([''mnt'', ''staging'', ''raw_photos'', ''A_img001.cr2''], NotADirectoryError)]
   \<and> snd (snd (snd (organize_by_date exif_ext 10 demo_self stray_fs))) = None
   \<and> node_at (fst (snd (organize_by_date exif_ext 10 demo_self stray_fs)))
         [''mnt'', ''staging'', ''raw_photos'', ''A_img001.cr2''] = Some (File ''RAW'' 10)
   \<and> node_at (fst (snd (organize_by_date exif_ext 10 demo_self stray_fs)))
         [''mnt'', ''staging'', ''organized'', ''2023'', ''01'', ''01'', ''B_photo.cr2'']
       = Some (File ''RAW'' 20)
   \<and> shutil_move 10 blocked_fs [''mnt'', ''staging'', ''raw_photos'', ''B_photo.cr2'']
         [''mnt'', ''staging'', ''duplicates'', ''B_photo.cr2''] = (blocked_fs, Some Shutil_Error)
   \<and> run_jdupes_deduplication (detector_ext detector_out) 10 demo_self blocked_fs
       = (demo_self\<lparr>stats := demo_stats\<lparr>duplicates_found := 1\<rparr>\<rparr>, blocked_fs, None)
   \<and> errors (stats (fst (run_jdupes_deduplication (detector_ext detector_out) 10 demo_self
         blocked_fs))) = []"
  by code_simp

section \<open>The command surface and the dry run: the claims\<close>

text \<open>
  Claim C8, as amended. The parser admits the step names discover, gather, dedupe,
  organize, import and all. With \<^verbatim>\<open>all\<close> the program runs the full pipeline; with
  \<^verbatim>\<open>discover\<close> it runs the discovery alone, prints the sources and leaves the
  filesystem as it is; with gather, dedupe, organize or import it logs that the step is
  not implemented yet and runs no stage: the filesystem is what it was.
\<close>

theorem command_surface:
  "(arg_step a \<in> {Gather, Dedupe, Organize, Import} \<longrightarrow>
      main ext depth a fs = (fs, Logged_not_implemented (arg_step a)))
   \<and> (arg_step a = Discover \<longrightarrow>
      main ext depth a fs =
        (fs, case discover_photo_sources depth fs of
               Inr sources \<Rightarrow> Printed sources
             | Inl e \<Rightarrow> Uncaught e))
   \<and> (arg_step a = All \<longrightarrow>
      fst (main ext depth a fs) =
        fst (snd (run_full_consolidation ext depth
               \<lparr>stage_dir = Path (arg_stage_dir a), dry_run = arg_dry_run a, stats = initial_stats\<rparr>
               fs)))"
  by (auto simp: main_def Let_def split: sum.splits prod.splits option.splits)

theorem command_surface_witness:
  "main exif_ext 10 (step_args Gather) staged_fs = (staged_fs, Logged_not_implemented Gather)
   \<and> main exif_ext 10 (step_args Dedupe) staged_fs = (staged_fs, Logged_not_implemented Dedupe)
   \<and> main exif_ext 10 (step_args Organize) staged_fs = (staged_fs, Logged_not_implemented Organize)
   \<and> main exif_ext 10 (step_args Import) staged_fs = (staged_fs, Logged_not_implemented Import)
   \<and> fst (main demo_ext 10 (step_args Discover) source_fs) = source_fs
   \<and> fst (main demo_ext 10 (step_args All) source_fs) =
        fst (snd (run_full_consolidation demo_ext 10
               \<lparr>stage_dir = Path ''/mnt/staging'', dry_run = False, stats = initial_stats\<rparr>
               source_fs))"
proof -
  have s: "arg_step (step_args x) = x" "arg_stage_dir (step_args x) = ''/mnt/staging''"
    "arg_dry_run (step_args x) = False" for x
    by (simp_all add: step_args_def)
  from command_surface[of "step_args Gather" exif_ext 10 staged_fs]
  have 1: "main exif_ext 10 (step_args Gather) staged_fs = (staged_fs, Logged_not_implemented Gather)"
    by (simp add: s)
  from command_surface[of "step_args Dedupe" exif_ext 10 staged_fs]
  have 2: "main exif_ext 10 (step_args Dedupe) staged_fs = (staged_fs, Logged_not_implemented Dedupe)"
    by (simp add: s)
  from command_surface[of "step_args Organize" exif_ext 10 staged_fs]
  have 3: "main exif_ext 10 (step_args Organize) staged_fs = (staged_fs, Logged_not_implemented Organize)"
    by (simp add: s)
  from command_surface[of "step_args Import" exif_ext 10 staged_fs]
  have 4: "main exif_ext 10 (step_args Import) staged_fs = (staged_fs, Logged_not_implemented Import)"
    by (simp add: s)
  from command_surface[of "step_args Discover" demo_ext 10 source_fs]
  have 5: "fst (main demo_ext 10 (step_args Discover) source_fs) = source_fs"
    by (simp add: s)
  from command_surface[of "step_args All" demo_ext 10 source_fs]
  have 6: "fst (main demo_ext 10 (step_args All) source_fs) =
        fst (snd (run_full_consolidation demo_ext 10
               \<lparr>stage_dir = Path ''/mnt/staging'', dry_run = False, stats = initial_stats\<rparr>
               source_fs))"
    by (simp add: s)
  from 1 2 3 4 5 6 show ?thesis by simp
qed

text \<open>
  The claim as it stands fails for \<^verbatim>\<open>organize\<close>: the step alone leaves the staged file
  where it is, and the organizer would have moved it.
\<close>

theorem command_surface_counterexample:
  "main exif_ext 10 (step_args Organize) staged_fs = (staged_fs, Logged_not_implemented Organize)
   \<and> node_at staged_fs [''mnt'', ''staging'', ''raw_photos'', ''A_img001.cr2'']
       = Some (File ''RAW'' 10)
   \<and> node_at (fst (snd (organize_by_date exif_ext 10 demo_self staged_fs)))
         [''mnt'', ''staging'', ''raw_photos'', ''A_img001.cr2''] = None
   \<and> node_at (fst (snd (organize_by_date exif_ext 10 demo_self staged_fs)))
         [''mnt'', ''staging'', ''organized'', ''2019'', ''07'', ''04'', ''A_img001.cr2'']
       = Some (File ''RAW'' 10)"
  by code_simp

text \<open>
  Claim C9, as amended. In a dry run the full pipeline changes one path of the
  filesystem at most, the report file: every other path holds what it held, so no staging
  directory is made and no file is copied, moved, quarantined or merged. A run that
  completes has written the report, which carries the statistics of the run (the counts
  of the walk) and the dry-run flag, and has put nothing new on the error list.
\<close>

theorem dry_run_writes_only_report:
  assumes "dry_run self" "run_full_consolidation ext depth self fs = (self', fs', r)"
  shows "(\<forall>p. p \<noteq> report_file \<longrightarrow> node_at fs' p = node_at fs p)
       \<and> (r = None \<longrightarrow>
            (\<exists>rep. node_at fs' report_file = Some (File (json_dump ext rep) (now_timestamp ext))
                  \<and> statistics rep = stats self' \<and> report_dry_run rep)
            \<and> errors (stats self') = errors (stats self))"
proof -
  obtain self1 fs1 r1 where c: "consolidation_steps ext depth self fs = (self1, fs1, r1)"
    by (cases "consolidation_steps ext depth self fs")
  from consolidation_steps_dry[OF assms(1) c] assms(2) c show ?thesis
    by (cases r1) (auto simp: run_full_consolidation_def)
qed

theorem dry_run_writes_only_report_witness:
  "dry_run dry_self
   \<and> snd (snd (run_full_consolidation demo_ext 10 dry_self source_fs)) = None
   \<and> [''mnt'', ''staging''] \<noteq> report_file
   \<and> node_at source_fs [''mnt'', ''staging''] = None
   \<and> node_at (fst (snd (run_full_consolidation demo_ext 10 dry_self source_fs)))
         [''mnt'', ''staging''] = None
   \<and> files_found (stats (fst (run_full_consolidation demo_ext 10 dry_self source_fs))) = 2
   \<and> files_copied (stats (fst (run_full_consolidation demo_ext 10 dry_self source_fs))) = 3
   \<and> errors (stats (fst (run_full_consolidation demo_ext 10 dry_self source_fs))) = []"
proof -
  let ?r = "run_full_consolidation demo_ext 10 dry_self source_fs"
  have h1: "dry_run dry_self" by (simp add: dry_self_def)
  have h2: "?r = (fst ?r, fst (snd ?r), snd (snd ?r))" by simp
  have n: "snd (snd ?r) = None" by code_simp
  have ne: "[''mnt'', ''staging''] \<noteq> report_file" by (simp add: report_file_def)
  have e0: "node_at source_fs [''mnt'', ''staging''] = None" by code_simp
  have e1: "files_found (stats (fst ?r)) = 2" by code_simp
  have e2: "files_copied (stats (fst ?r)) = 3" by code_simp
  have e3: "errors (stats dry_self) = []" by (simp add: dry_self_def initial_stats_def)
  from dry_run_writes_only_report[OF h1 h2] ne n
  have "node_at (fst (snd ?r)) [''mnt'', ''staging''] = node_at source_fs [''mnt'', ''staging'']"
    and "errors (stats (fst ?r)) = errors (stats dry_self)"
    by auto
  with h1 n ne e0 e1 e2 e3 show ?thesis by simp
qed

text \<open>The claim as it stands fails: the dry run writes the report file.\<close>

theorem dry_run_counterexample:
  "dry_run dry_self
   \<and> node_at source_fs report_file = None
   \<and> node_at (fst (snd (run_full_consolidation demo_ext 10 dry_self source_fs))) report_file
       = Some (File ''{}'' 1000)"
  by code_simp

end
